theory Spec2Isabelle
  imports Complex_Main
begin

section \<open>Python strings\<close>

text \<open>
  A Python \<open>str\<close> is a sequence of Unicode code points; it is modelled as a list of
  natural numbers, one per code point, so that \<open>length\<close> is Python's \<open>len\<close>.
\<close>

type_synonym pychar = nat
type_synonym pystr = "pychar list"

abbreviation TAB :: pychar where "TAB \<equiv> 9"
abbreviation NL :: pychar where "NL \<equiv> 10"
abbreviation SP :: pychar where "SP \<equiv> 32"
abbreviation HYPHEN :: pychar where "HYPHEN \<equiv> 45"

text \<open>\<open>str.isspace\<close> for one code point: the complete list of Python's whitespace.\<close>

definition isspace :: "pychar \<Rightarrow> bool" where
  "isspace c \<longleftrightarrow>
     (9 \<le> c \<and> c \<le> 13) \<or> (28 \<le> c \<and> c \<le> 32) \<or> c = 133 \<or> c = 160 \<or> c = 5760 \<or>
     (8192 \<le> c \<and> c \<le> 8202) \<or> c = 8232 \<or> c = 8233 \<or> c = 8239 \<or> c = 8287 \<or> c = 12288"

text \<open>
  \<open>str.isalpha\<close> and the numeric classes come from the Unicode character database,
  which is not part of the program: they are a parameter. \<open>str.isalnum\<close> is defined
  from them as Python defines it (alphabetic, decimal, digit or numeric).
\<close>

record unicode_db =
  isalpha :: "pychar \<Rightarrow> bool"
  isnumeric :: "pychar \<Rightarrow> bool"

definition isalnum :: "unicode_db \<Rightarrow> pychar \<Rightarrow> bool" where
  "isalnum U c \<longleftrightarrow> isalpha U c \<or> isnumeric U c"

text \<open>The database restricted to the code points below 256 (ASCII and Latin-1).\<close>

definition latin1_db :: unicode_db where
  "latin1_db =
     \<lparr> isalpha = (\<lambda>c. (65 \<le> c \<and> c \<le> 90) \<or> (97 \<le> c \<and> c \<le> 122) \<or> c = 170 \<or> c = 181 \<or>
                      c = 186 \<or> (192 \<le> c \<and> c \<le> 214) \<or> (216 \<le> c \<and> c \<le> 246) \<or>
                      (248 \<le> c \<and> c \<le> 255)),
       isnumeric = (\<lambda>c. (48 \<le> c \<and> c \<le> 57) \<or> c = 178 \<or> c = 179 \<or> c = 185 \<or>
                        (188 \<le> c \<and> c \<le> 190)) \<rparr>"

definition lstrip :: "pystr \<Rightarrow> pystr" where
  "lstrip s = dropWhile isspace s"

definition rstrip :: "pystr \<Rightarrow> pystr" where
  "rstrip s = rev (dropWhile isspace (rev s))"

definition strip :: "pystr \<Rightarrow> pystr" where
  "strip s = rstrip (lstrip s)"

text \<open>\<open>str.split()\<close> without arguments: the maximal runs of non-whitespace.\<close>

fun split_aux :: "pystr \<Rightarrow> pystr \<Rightarrow> pystr list" where
  "split_aux cur [] = (if cur = [] then [] else [cur])"
| "split_aux cur (c # cs) =
     (if isspace c then (if cur = [] then split_aux [] cs else cur # split_aux [] cs)
      else split_aux (cur @ [c]) cs)"

definition split :: "pystr \<Rightarrow> pystr list" where
  "split s = split_aux [] s"

text \<open>\<open>sep.join(parts)\<close>.\<close>

fun join :: "pystr \<Rightarrow> pystr list \<Rightarrow> pystr" where
  "join sep [] = []"
| "join sep [p] = p"
| "join sep (p # q # ps) = p @ sep @ join sep (q # ps)"

text \<open>
  \<open>str.splitlines()\<close>: the line boundaries are \<open>\n\<close>, \<open>\r\<close>, \<open>\r\n\<close>, \<open>\v\<close>, \<open>\f\<close>,
  \<open>\x1c\<close>, \<open>\x1d\<close>, \<open>\x1e\<close>, \<open>\x85\<close>, U+2028 and U+2029; the breaks are not kept
  and a final break opens no further line.
\<close>

definition is_linebreak :: "pychar \<Rightarrow> bool" where
  "is_linebreak c \<longleftrightarrow>
     (10 \<le> c \<and> c \<le> 13) \<or> (28 \<le> c \<and> c \<le> 30) \<or> c = 133 \<or> c = 8232 \<or> c = 8233"

fun splitlines_aux :: "pystr \<Rightarrow> pystr \<Rightarrow> pystr list" where
  "splitlines_aux cur [] = (if cur = [] then [] else [cur])"
| "splitlines_aux cur [c] = (if is_linebreak c then [cur] else [cur @ [c]])"
| "splitlines_aux cur (c # d # cs) =
     (if c = 13 \<and> d = 10 then cur # splitlines_aux [] cs
      else if is_linebreak c then cur # splitlines_aux [] (d # cs)
      else splitlines_aux (cur @ [c]) (d # cs))"

definition splitlines :: "pystr \<Rightarrow> pystr list" where
  "splitlines s = splitlines_aux [] s"

section \<open>Regular-expression substitution\<close>

text \<open>
  \<open>re.sub(pattern, repl, text)\<close> for a pattern that matches no empty string: scanning
  from the left, the leftmost match is replaced and the scan goes on behind it; where the
  pattern does not match, the character is copied. The pattern is given by its matcher
  \<open>m\<close>, which returns the length of the (greedy) match at the start of its argument.
\<close>

function re_sub :: "(pystr \<Rightarrow> nat option) \<Rightarrow> pystr \<Rightarrow> pystr \<Rightarrow> pystr" where
  "re_sub m repl [] = []"
| "re_sub m repl (c # cs) =
     (case m (c # cs) of
        None \<Rightarrow> c # re_sub m repl cs
      | Some n \<Rightarrow> if 0 < n then repl @ re_sub m repl (drop n (c # cs))
                  else c # re_sub m repl cs)"
  by pat_completeness auto
termination
  by (relation "measure (\<lambda>(m, repl, s). length s)") auto

text \<open>The pattern \<open>-\n\<close>.\<close>

definition match_hyphen_break :: "pystr \<Rightarrow> nat option" where
  "match_hyphen_break s = (if take 2 s = [HYPHEN, NL] then Some 2 else None)"

text \<open>The pattern \<open>[ \t]+\n\<close>: the whole run of spaces and tabs, then the line break.\<close>

definition match_trailing_blanks :: "pystr \<Rightarrow> nat option" where
  "match_trailing_blanks s =
     (let n = length (takeWhile (\<lambda>c. c = SP \<or> c = TAB) s)
      in if 1 \<le> n \<and> take 1 (drop n s) = [NL] then Some (n + 1) else None)"

text \<open>The pattern \<open>\n{3,}\<close>.\<close>

definition match_breaks3 :: "pystr \<Rightarrow> nat option" where
  "match_breaks3 s =
     (let n = length (takeWhile (\<lambda>c. c = NL) s) in if 3 \<le> n then Some n else None)"

text \<open>The pattern \<open>[ ]{2,}\<close>: spaces only.\<close>

definition match_spaces2 :: "pystr \<Rightarrow> nat option" where
  "match_spaces2 s =
     (let n = length (takeWhile (\<lambda>c. c = SP) s) in if 2 \<le> n then Some n else None)"

definition rule1 :: "pystr \<Rightarrow> pystr" where
  "rule1 s = re_sub match_hyphen_break [] s"

definition rule2 :: "pystr \<Rightarrow> pystr" where
  "rule2 s = re_sub match_trailing_blanks [NL] s"

definition rule3 :: "pystr \<Rightarrow> pystr" where
  "rule3 s = re_sub match_breaks3 [NL, NL] s"

definition rule4 :: "pystr \<Rightarrow> pystr" where
  "rule4 s = re_sub match_spaces2 [SP] s"

text \<open>
  The normalization pass of \<open>correct_spanish_text\<close>: blank input is returned as it is,
  otherwise the four substitutions run in the order of the source.
\<close>

definition is_blank :: "pystr \<Rightarrow> bool" where
  "is_blank s \<longleftrightarrow> s = [] \<or> strip s = []"

definition normalize_text :: "pystr \<Rightarrow> pystr" where
  "normalize_text s = (if is_blank s then s else rule4 (rule3 (rule2 (rule1 s))))"


text \<open>A hyphen directly followed by a line break occurs in the string.\<close>

fun has_hyphen_break :: "pystr \<Rightarrow> bool" where
  "has_hyphen_break (a # b # cs) = ((a = HYPHEN \<and> b = NL) \<or> has_hyphen_break (b # cs))"
| "has_hyphen_break cs = False"

text \<open>
  Properties of neighbouring characters that the rules establish: no space or tab
  directly before a line break, no two spaces in a row, no three line breaks in a row.
\<close>

definition ok2 :: "pychar \<Rightarrow> pychar \<Rightarrow> bool" where
  "ok2 a b \<longleftrightarrow> \<not> ((a = SP \<or> a = TAB) \<and> b = NL)"

definition ok4 :: "pychar \<Rightarrow> pychar \<Rightarrow> bool" where
  "ok4 a b \<longleftrightarrow> \<not> (a = SP \<and> b = SP)"

fun no_breaks3 :: "pystr \<Rightarrow> bool" where
  "no_breaks3 (a # b # c # cs) = (\<not> (a = NL \<and> b = NL \<and> c = NL) \<and> no_breaks3 (b # c # cs))"
| "no_breaks3 cs = True"

section \<open>The corrector\<close>

text \<open>
  An exception that \<open>except Exception\<close> catches. Every call into a backend either
  returns or raises: the grammar tool's \<open>check\<close> and
  \<open>language_tool_python.utils.correct\<close>, which run inside the \<open>try\<close> block,
  and the dictionary checker's \<open>correction\<close>, which returns a suggestion or \<open>None\<close>
  and is called after the \<open>try\<close> block, outside any handler.
\<close>

datatype exn = Exception string

record 'm language_tool =
  check :: "pystr \<Rightarrow> exn + 'm"
  utils_correct :: "pystr \<Rightarrow> 'm \<Rightarrow> exn + pystr"

record spellchecker =
  correction :: "pystr \<Rightarrow> exn + pystr option"

text \<open>The module globals \<open>lt_tool\<close>, \<open>spell\<close> and \<open>USE_LT\<close>.\<close>

record 'm tools =
  lt_tool :: "'m language_tool option"
  spell :: "spellchecker option"
  USE_LT :: bool

definition initial_tools :: "'m tools" where
  "initial_tools = \<lparr> lt_tool = None, spell = None, USE_LT = True \<rparr>"

text \<open>
  \<open>setup_spell_tools\<close>: the two arguments are what constructing the grammar tool and
  the dictionary checker gives in the environment (the object, or the exception raised).
  The dictionary checker is only constructed when the grammar tool is not available.
\<close>

definition setup_spell_tools ::
  "exn + 'm language_tool \<Rightarrow> exn + spellchecker \<Rightarrow> 'm tools \<Rightarrow> 'm tools" where
  "setup_spell_tools lt_init spell_init g =
     (case lt_init of
        Inr t \<Rightarrow> g\<lparr>lt_tool := Some t, USE_LT := True\<rparr>
      | Inl e \<Rightarrow>
          (case spell_init of
             Inr sc \<Rightarrow> g\<lparr>USE_LT := False, spell := Some sc\<rparr>
           | Inl e2 \<Rightarrow> g\<lparr>USE_LT := False\<rparr>))"

text \<open>
  The \<open>try\<close> block of \<open>correct_spanish_text\<close>: \<open>Some\<close> of the corrected text when
  the block returns, \<open>None\<close> when control falls through to the next method (no grammar
  tool, or an exception swallowed by \<open>except Exception: pass\<close>).
\<close>

definition grammar_pass :: "'m tools \<Rightarrow> pystr \<Rightarrow> pystr option" where
  "grammar_pass g text =
     (case lt_tool g of
        None \<Rightarrow> None
      | Some lt \<Rightarrow>
          (case check lt text of
             Inl e \<Rightarrow> None
           | Inr matches \<Rightarrow>
               (case utils_correct lt text matches of Inl e \<Rightarrow> None | Inr r \<Rightarrow> Some r)))"

text \<open>The first \<open>while\<close> loop on a token; the state is \<open>(prefix, core)\<close>.\<close>

fun strip_prefix :: "unicode_db \<Rightarrow> pystr \<Rightarrow> pystr \<Rightarrow> pystr \<times> pystr" where
  "strip_prefix U prefix [] = (prefix, [])"
| "strip_prefix U prefix (c # core) =
     (if \<not> isalnum U c then strip_prefix U (prefix @ [c]) core else (prefix, c # core))"

text \<open>The second \<open>while\<close> loop; the state is \<open>(suffix, core)\<close>.\<close>

function strip_suffix :: "unicode_db \<Rightarrow> pystr \<Rightarrow> pystr \<Rightarrow> pystr \<times> pystr" where
  "strip_suffix U suffix core =
     (if core \<noteq> [] \<and> \<not> isalnum U (last core)
      then strip_suffix U (last core # suffix) (butlast core) else (suffix, core))"
  by pat_completeness auto
termination
  by (relation "measure (\<lambda>(U, suffix, core). length core)") auto

declare strip_suffix.simps [simp del]

text \<open>
  The body of the loop over the tokens: the token that is appended to \<open>tokens\<close>, or
  the exception that \<open>spell.correction\<close> raises.
\<close>

definition correct_token :: "unicode_db \<Rightarrow> spellchecker \<Rightarrow> pystr \<Rightarrow> exn + pystr" where
  "correct_token U sp tok =
     (if \<exists>ch\<in>set tok. isalpha U ch then
        (case strip_prefix U [] tok of
           (prefix, core1) \<Rightarrow>
             (case strip_suffix U [] core1 of
                (suffix, core) \<Rightarrow>
                  if core \<noteq> [] then
                    (case correction sp core of
                       Inl e \<Rightarrow> Inl e
                     | Inr (Some suggestion) \<Rightarrow>
                         if suggestion \<noteq> [] then Inr (prefix @ suggestion @ suffix)
                         else Inr tok
                     | Inr None \<Rightarrow> Inr tok)
                  else Inr tok))
      else Inr tok)"

text \<open>The loop over the tokens: it ends at the first exception.\<close>

fun correct_tokens :: "unicode_db \<Rightarrow> spellchecker \<Rightarrow> pystr list \<Rightarrow> exn + pystr list" where
  "correct_tokens U sp [] = Inr []"
| "correct_tokens U sp (tok # toks) =
     (case correct_token U sp tok of
        Inl e \<Rightarrow> Inl e
      | Inr tok' \<Rightarrow>
          (case correct_tokens U sp toks of
             Inl e \<Rightarrow> Inl e
           | Inr tokens \<Rightarrow> Inr (tok' # tokens)))"

definition dictionary_pass :: "unicode_db \<Rightarrow> spellchecker \<Rightarrow> pystr \<Rightarrow> exn + pystr" where
  "dictionary_pass U sp text =
     (case correct_tokens U sp (split text) of
        Inl e \<Rightarrow> Inl e
      | Inr tokens \<Rightarrow> Inr (join [SP] tokens))"

text \<open>
  \<open>correct_spanish_text\<close>: the text it returns, or the exception that leaves it. Only
  the grammar tool's calls are inside a handler.
\<close>

definition correct_spanish_text :: "unicode_db \<Rightarrow> 'm tools \<Rightarrow> pystr \<Rightarrow> exn + pystr" where
  "correct_spanish_text U g text =
     (if text = [] \<or> strip text = [] then Inr text
      else
        let text = re_sub match_hyphen_break [] text;
            text = re_sub match_trailing_blanks [NL] text;
            text = re_sub match_breaks3 [NL, NL] text;
            text = re_sub match_spaces2 [SP] text
        in case grammar_pass g text of
             Some corrected \<Rightarrow> Inr corrected
           | None \<Rightarrow>
               (case spell g of
                  Some sp \<Rightarrow> dictionary_pass U sp text
                | None \<Rightarrow> Inr text))"

text \<open>
  Example backends: a dictionary that knows one word, a dictionary whose lookup raises,
  a grammar tool that is down, and the dictionary that answers by a function \<open>f\<close>
  without ever raising.
\<close>

definition hola_checker :: spellchecker where
  "hola_checker =
     \<lparr> correction =
         (\<lambda>w. if w = [104, 111, 108, 97] then Inr (Some [72, 111, 108, 97]) else Inr None) \<rparr>"

definition raising_checker :: spellchecker where
  "raising_checker = \<lparr> correction = (\<lambda>w. Inl (Exception ''lookup failed'')) \<rparr>"

definition failing_tool :: "unit language_tool" where
  "failing_tool =
     \<lparr> check = (\<lambda>t. Inl (Exception ''connection refused'')), utils_correct = (\<lambda>t m. Inr t) \<rparr>"

definition returning_checker :: "(pystr \<Rightarrow> pystr option) \<Rightarrow> spellchecker" where
  "returning_checker f = \<lparr> correction = (\<lambda>w. Inr (f w)) \<rparr>"

section \<open>The output canvas\<close>

text \<open>
  The ReportLab canvas as the program uses it: the sealed pages, each with the strings
  drawn on it (position and text), the strings drawn on the open page, the active font,
  and whether the document has been saved. \<open>showPage\<close> seals the open page and resets the
  font to the canvas's initial font; \<open>save\<close> seals an open page that has content and
  writes the document.
\<close>

type_synonym drawn_string = "real \<times> real \<times> pystr"

record canvas =
  pages :: "drawn_string list list"
  current :: "drawn_string list"
  font :: "string \<times> real"
  initial_font :: "string \<times> real"
  saved :: bool

definition new_canvas :: canvas where
  "new_canvas =
     \<lparr> pages = [], current = [], font = (''Helvetica'', 12),
       initial_font = (''Helvetica'', 12), saved = False \<rparr>"

definition setFont :: "string \<Rightarrow> real \<Rightarrow> canvas \<Rightarrow> canvas" where
  "setFont name fsize canv = canv\<lparr>font := (name, fsize)\<rparr>"

definition drawString :: "real \<Rightarrow> real \<Rightarrow> pystr \<Rightarrow> canvas \<Rightarrow> canvas" where
  "drawString x y s canv = canv\<lparr>current := current canv @ [(x, y, s)]\<rparr>"

definition showPage :: "canvas \<Rightarrow> canvas" where
  "showPage canv =
     canv\<lparr>pages := pages canv @ [current canv], current := [], font := initial_font canv\<rparr>"

definition save :: "canvas \<Rightarrow> canvas" where
  "save canv = (if current canv \<noteq> [] then showPage canv else canv)\<lparr>saved := True\<rparr>"

text \<open>Every string drawn so far, in drawing order.\<close>

definition drawn :: "canvas \<Rightarrow> drawn_string list" where
  "drawn canv = concat (pages canv) @ current canv"

section \<open>The layout step\<close>

text \<open>
  ReportLab's page size \<open>A4\<close> in points (210 mm by 297 mm, \<open>mm = 72 / 25.4\<close>).
  Coordinates are Python floats; they are modelled as real numbers, and the layout
  only subtracts the line height and compares.
\<close>

definition mm :: real where
  "mm = 72 / 25.4"

definition A4 :: "real \<times> real" where
  "A4 = (210 * mm, 297 * mm)"

text \<open>
  \<open>simpleSplit(text, fontName, fontSize, maxWidth)\<close> wraps one line by the font's
  metrics; it is a parameter of the model.
\<close>

type_synonym splitter = "pystr \<Rightarrow> string \<Rightarrow> real \<Rightarrow> real \<Rightarrow> pystr list"

text \<open>
  The statements shared by both branches of the loop: \<open>y -= line_h\<close>, then, if
  \<open>y < bottom\<close>, \<open>showPage\<close>, \<open>setFont\<close> and \<open>y = page_h - top\<close>. The state is
  \<open>(canv, y)\<close>.
\<close>

definition advance ::
  "string \<Rightarrow> real \<Rightarrow> real \<Rightarrow> real \<Rightarrow> real \<Rightarrow> canvas \<times> real \<Rightarrow> canvas \<times> real" where
  "advance font_name font_size line_h bottom y_start st =
     (case st of
        (canv, y) \<Rightarrow>
          let y = y - line_h
          in if y < bottom then (setFont font_name font_size (showPage canv), y_start)
             else (canv, y))"

text \<open>The inner loop body: draw one display line at the cursor, then advance.\<close>

definition draw_line ::
  "string \<Rightarrow> real \<Rightarrow> real \<Rightarrow> real \<Rightarrow> real \<Rightarrow> real \<Rightarrow> pystr \<Rightarrow> canvas \<times> real
     \<Rightarrow> canvas \<times> real" where
  "draw_line font_name font_size left line_h bottom y_start w_line st =
     (case st of
        (canv, y) \<Rightarrow>
          advance font_name font_size line_h bottom y_start (drawString left y w_line canv, y))"

text \<open>The outer loop body, for one \<open>raw_line\<close> of \<open>text.splitlines()\<close>.\<close>

definition layout_line ::
  "splitter \<Rightarrow> string \<Rightarrow> real \<Rightarrow> real \<Rightarrow> real \<Rightarrow> real \<Rightarrow> real \<Rightarrow> real \<Rightarrow> pystr
     \<Rightarrow> canvas \<times> real \<Rightarrow> canvas \<times> real" where
  "layout_line simpleSplit font_name font_size left usable_w line_h bottom y_start raw_line st =
     (let line = rstrip raw_line
      in if strip line = [] then advance font_name font_size line_h bottom y_start st
         else fold (draw_line font_name font_size left line_h bottom y_start)
                (simpleSplit line font_name font_size usable_w) st)"

definition write_wrapped_page ::
  "splitter \<Rightarrow> pystr \<Rightarrow> canvas \<Rightarrow> string \<Rightarrow> real \<Rightarrow> real \<times> real \<times> real \<times> real \<Rightarrow> canvas" where
  "write_wrapped_page simpleSplit text canv font_name font_size margins =
     (case margins of
        (left, right, topm, bottom) \<Rightarrow>
          (case A4 of
             (page_w, page_h) \<Rightarrow>
               let usable_w = page_w - left - right;
                   line_h = font_size * 1.27;
                   canv = setFont font_name font_size canv;
                   y = page_h - topm
               in if text = [] \<or> strip text = [] then showPage canv
                  else showPage
                         (fst (fold (layout_line simpleSplit font_name font_size left usable_w
                                       line_h bottom (page_h - topm))
                                 (splitlines text) (canv, y)))))"

text \<open>The default of the parameter \<open>margins\<close>.\<close>

definition default_margins :: "real \<times> real \<times> real \<times> real" where
  "default_margins = (50, 50, 50, 50)"

text \<open>The number of pages one call of the layout step seals.\<close>

definition pages_emitted ::
  "splitter \<Rightarrow> pystr \<Rightarrow> canvas \<Rightarrow> string \<Rightarrow> real \<Rightarrow> real \<times> real \<times> real \<times> real \<Rightarrow> nat" where
  "pages_emitted simpleSplit text canv font_name font_size margins =
     length (pages (write_wrapped_page simpleSplit text canv font_name font_size margins))
       - length (pages canv)"

text \<open>
  The number of times the layout of a text moves the cursor down by one line height:
  once for each blank line and once for each display line of a wrapped line; a blank
  text moves it not at all.
\<close>

definition line_advances ::
  "splitter \<Rightarrow> pystr \<Rightarrow> string \<Rightarrow> real \<Rightarrow> real \<times> real \<times> real \<times> real \<Rightarrow> nat" where
  "line_advances simpleSplit text font_name font_size margins =
     (case margins of
        (left, right, topm, bottom) \<Rightarrow>
          if text = [] \<or> strip text = [] then 0
          else sum_list
                 (map (\<lambda>raw_line.
                         if strip (rstrip raw_line) = [] then 1
                         else length (simpleSplit (rstrip raw_line) font_name font_size
                                        (fst A4 - left - right)))
                    (splitlines text)))"

text \<open>A splitter that never wraps: what \<open>simpleSplit\<close> returns for a line that fits.\<close>

definition no_wrap :: splitter where
  "no_wrap line font_name font_size max_width = [line]"


text \<open>
  The page breaks that \<open>n\<close> advances cause when the cursor starts at \<open>y\<close>, and
  the cursor after them.
\<close>

fun page_breaks :: "real \<Rightarrow> real \<Rightarrow> real \<Rightarrow> real \<Rightarrow> nat \<Rightarrow> nat" where
  "page_breaks line_h bottom y_start y 0 = 0"
| "page_breaks line_h bottom y_start y (Suc n) =
     (if y - line_h < bottom then Suc (page_breaks line_h bottom y_start y_start n)
      else page_breaks line_h bottom y_start (y - line_h) n)"

fun cursor_after :: "real \<Rightarrow> real \<Rightarrow> real \<Rightarrow> real \<Rightarrow> nat \<Rightarrow> real" where
  "cursor_after line_h bottom y_start y 0 = y"
| "cursor_after line_h bottom y_start y (Suc n) =
     (if y - line_h < bottom then cursor_after line_h bottom y_start y_start n
      else cursor_after line_h bottom y_start (y - line_h) n)"

text \<open>
  The invariant of the layout loops: the cursor lies between the bottom margin and the
  start position, and every string drawn since the call began lies at the left margin
  and between the same bounds.
\<close>

definition layout_inv :: "real \<Rightarrow> real \<Rightarrow> real \<Rightarrow> canvas \<Rightarrow> canvas \<times> real \<Rightarrow> bool" where
  "layout_inv left bottom y_start canv0 st \<longleftrightarrow>
     (case st of
        (canv, y) \<Rightarrow>
          bottom \<le> y \<and> y \<le> y_start \<and>
          (\<exists>new. drawn canv = drawn canv0 @ new \<and>
                 (\<forall>(x, y', s)\<in>set new. x = left \<and> bottom \<le> y' \<and> y' \<le> y_start)))"

text \<open>The advances that one line of the text causes.\<close>

definition line_steps :: "splitter \<Rightarrow> string \<Rightarrow> real \<Rightarrow> real \<Rightarrow> pystr \<Rightarrow> nat" where
  "line_steps sp f s uw raw_line =
     (if strip (rstrip raw_line) = [] then 1 else length (sp (rstrip raw_line) f s uw))"

section \<open>The pipeline\<close>

text \<open>
  A page of the input document exposes the width and height of its rectangle. A clip
  rectangle is \<open>fitz.Rect(x0, y0, x1, y1)\<close>, and \<open>fitz.Matrix(sx, sy)\<close> is the
  scaling matrix with the coefficients \<open>a = sx\<close>, \<open>d = sy\<close> and zero elsewhere.
\<close>

record page_rect =
  width :: real
  height :: real

record 'a page =
  rect :: page_rect
  content :: 'a

record rect =
  x0 :: real
  y0 :: real
  x1 :: real
  y1 :: real

record matrix =
  m_a :: real
  m_b :: real
  m_c :: real
  m_d :: real
  m_e :: real
  m_f :: real

definition Rect :: "real \<Rightarrow> real \<Rightarrow> real \<Rightarrow> real \<Rightarrow> rect" where
  "Rect xa ya xb yb = \<lparr> x0 = xa, y0 = ya, x1 = xb, y1 = yb \<rparr>"

definition Matrix :: "real \<Rightarrow> real \<Rightarrow> matrix" where
  "Matrix sx sy = \<lparr> m_a = sx, m_b = 0, m_c = 0, m_d = sy, m_e = 0, m_f = 0 \<rparr>"

text \<open>
  A pixmap is the raster of a page region; it is represented by what determines it: the
  page, the matrix, the clip rectangle and the alpha flag given to \<open>get_pixmap\<close>.
\<close>

record 'a pixmap =
  pix_page :: "'a page"
  pix_matrix :: matrix
  pix_clip :: rect
  pix_alpha :: bool

definition get_pixmap :: "'a page \<Rightarrow> matrix \<Rightarrow> rect \<Rightarrow> bool \<Rightarrow> 'a pixmap" where
  "get_pixmap pg m clip alpha =
     \<lparr> pix_page = pg, pix_matrix = m, pix_clip = clip, pix_alpha = alpha \<rparr>"

text \<open>
  The recognition engine (\<open>pytesseract.image_to_string\<close> behind the PNG marshalling)
  returns the text of a pixmap for a language code, or raises.
\<close>

type_synonym 'a engine = "'a pixmap \<Rightarrow> string \<Rightarrow> exn + pystr"

definition ocr_half_pixmap :: "'a engine \<Rightarrow> 'a pixmap \<Rightarrow> string \<Rightarrow> exn + pystr" where
  "ocr_half_pixmap image_to_string pixmap lang = image_to_string pixmap lang"

text \<open>The fields of \<open>VerticalPDFProcessor\<close>.\<close>

record processor =
  dpi :: int
  omit_first :: bool
  font_name :: string

text \<open>The two pixmaps that the loop body renders for one page.\<close>

definition half_pixmaps :: "processor \<Rightarrow> 'a page \<Rightarrow> 'a pixmap \<times> 'a pixmap" where
  "half_pixmaps self pg =
     (let m = Matrix (real_of_int (dpi self) / 72) (real_of_int (dpi self) / 72);
          mid_x = width (rect pg) / 2;
          left_clip = Rect 0 0 mid_x (height (rect pg));
          right_clip = Rect mid_x 0 (width (rect pg)) (height (rect pg));
          left_pix = get_pixmap pg m left_clip False;
          right_pix = get_pixmap pg m right_clip False
      in (left_pix, right_pix))"

text \<open>
  The body of the loop over the pages. An exception of the recognition engine or of
  \<open>correct_spanish_text\<close> is not caught anywhere in \<open>process\<close>: the result carries
  it, with the canvas as it was.
\<close>

definition process_page ::
  "unicode_db \<Rightarrow> 'm tools \<Rightarrow> 'a engine \<Rightarrow> splitter \<Rightarrow> processor \<Rightarrow> 'a page \<Rightarrow> canvas
     \<Rightarrow> exn option \<times> canvas" where
  "process_page U g image_to_string simpleSplit self pg canv =
     (case half_pixmaps self pg of
        (left_pix, right_pix) \<Rightarrow>
          (case ocr_half_pixmap image_to_string left_pix ''spa'' of
             Inl e \<Rightarrow> (Some e, canv)
           | Inr left_raw \<Rightarrow>
               (case correct_spanish_text U g left_raw of
                  Inl e \<Rightarrow> (Some e, canv)
                | Inr left_text \<Rightarrow>
                    (case ocr_half_pixmap image_to_string right_pix ''spa'' of
                       Inl e \<Rightarrow> (Some e, canv)
                     | Inr right_raw \<Rightarrow>
                         (case correct_spanish_text U g right_raw of
                            Inl e \<Rightarrow> (Some e, canv)
                          | Inr right_text \<Rightarrow>
                              let canv = write_wrapped_page simpleSplit left_text canv
                                           (font_name self) 11 default_margins;
                                  canv = write_wrapped_page simpleSplit right_text canv
                                           (font_name self) 11 default_margins
                              in (None, canv))))))"

text \<open>The loop over the pages: it ends at the first exception.\<close>

fun process_pages ::
  "unicode_db \<Rightarrow> 'm tools \<Rightarrow> 'a engine \<Rightarrow> splitter \<Rightarrow> processor \<Rightarrow> 'a page list \<Rightarrow> canvas
     \<Rightarrow> exn option \<times> canvas" where
  "process_pages U g image_to_string simpleSplit self [] canv = (None, canv)"
| "process_pages U g image_to_string simpleSplit self (pg # pgs) canv =
     (case process_page U g image_to_string simpleSplit self pg canv of
        (Some e, canv') \<Rightarrow> (Some e, canv')
      | (None, canv') \<Rightarrow> process_pages U g image_to_string simpleSplit self pgs canv')"

text \<open>
  \<open>VerticalPDFProcessor.process\<close> on the opened document \<open>doc\<close>: the pages
  \<open>doc[i]\<close> for \<open>i\<close> in \<open>range(start_page, len(doc))\<close> go through the loop, then the
  canvas is saved. The console output is not modelled.
\<close>

definition process ::
  "unicode_db \<Rightarrow> 'm tools \<Rightarrow> 'a engine \<Rightarrow> splitter \<Rightarrow> processor \<Rightarrow> 'a page list
     \<Rightarrow> exn option \<times> canvas" where
  "process U g image_to_string simpleSplit self doc =
     (let canv = new_canvas;
          start_page = (if omit_first self then 1 else 0)
      in case process_pages U g image_to_string simpleSplit self
                (map (\<lambda>i. doc ! i) [start_page ..< length doc]) canv of
           (Some e, canv') \<Rightarrow> (Some e, canv')
         | (None, canv') \<Rightarrow> (None, save canv'))"

text \<open>Both halves of a page are recognized.\<close>

definition recognized :: "'a engine \<Rightarrow> processor \<Rightarrow> 'a page \<Rightarrow> bool" where
  "recognized image_to_string self pg \<longleftrightarrow>
     (case half_pixmaps self pg of
        (left_pix, right_pix) \<Rightarrow>
          \<not> isl (ocr_half_pixmap image_to_string left_pix ''spa'') \<and>
          \<not> isl (ocr_half_pixmap image_to_string right_pix ''spa''))"


text \<open>The sealed pages of the second canvas start with those of the first.\<close>

definition pages_extend :: "canvas \<Rightarrow> canvas \<Rightarrow> bool" where
  "pages_extend canv0 canv \<longleftrightarrow>
     length (pages canv0) \<le> length (pages canv) \<and>
     take (length (pages canv0)) (pages canv) = pages canv0"

text \<open>
  Example inputs: pages of 600 by 800 points numbered by their content, the processor
  with its default settings, a recognition engine that raises on the left half of the
  page numbered \<open>k\<close>, and one that reads \<open>x\<close> everywhere.
\<close>

definition example_page :: "nat \<Rightarrow> nat page" where
  "example_page k = \<lparr> rect = \<lparr> width = 600, height = 800 \<rparr>, content = k \<rparr>"

definition example_processor :: processor where
  "example_processor = \<lparr> dpi = 300, omit_first = True, font_name = ''Helvetica'' \<rparr>"

definition failing_engine :: "nat \<Rightarrow> nat engine" where
  "failing_engine k pixmap lang =
     (if content (pix_page pixmap) = k \<and> x0 (pix_clip pixmap) = 0
      then Inl (Exception ''recognition failed'') else Inr [120])"

definition x_engine :: "nat pixmap \<Rightarrow> string \<Rightarrow> pystr" where
  "x_engine pixmap lang = [120]"

section \<open>Normalization: the four substitutions\<close>

lemmas norm_eval = normalize_text_def is_blank_def strip_def lstrip_def rstrip_def isspace_def
  rule1_def rule2_def rule3_def rule4_def match_hyphen_break_def match_trailing_blanks_def
  match_breaks3_def match_spaces2_def

lemma drop_length_takeWhile: "drop (length (takeWhile P s)) s = dropWhile P s"
  by (induction s) auto

lemma rule1_Nil: "rule1 [] = []"
  by (simp add: rule1_def)

lemma rule1_Cons:
  "rule1 (c # cs) = (if c = HYPHEN \<and> take 1 cs = [NL] then rule1 (drop 1 cs) else c # rule1 cs)"
  by (cases cs) (auto simp: rule1_def match_hyphen_break_def)

lemma rule2_Nil: "rule2 [] = []"
  by (simp add: rule2_def)

lemma rule2_Cons:
  "rule2 (c # cs) =
     (if (c = SP \<or> c = TAB) \<and> take 1 (dropWhile (\<lambda>c. c = SP \<or> c = TAB) cs) = [NL]
      then NL # rule2 (drop 1 (dropWhile (\<lambda>c. c = SP \<or> c = TAB) cs)) else c # rule2 cs)"
proof -
  let ?B = "\<lambda>c. c = SP \<or> c = TAB"
  have d: "drop (Suc (length (takeWhile ?B cs))) cs = drop 1 (dropWhile ?B cs)"
    using drop_drop[of 1 "length (takeWhile ?B cs)" cs] by (simp add: drop_length_takeWhile)
  show ?thesis
    by (auto simp: rule2_def match_trailing_blanks_def Let_def drop_length_takeWhile d)
qed

lemma rule3_Nil: "rule3 [] = []"
  by (simp add: rule3_def)

lemma rule3_Cons:
  "rule3 (c # cs) =
     (if c = NL \<and> take 2 cs = [NL, NL]
      then NL # NL # rule3 (dropWhile (\<lambda>c. c = NL) cs) else c # rule3 cs)"
proof (cases "c = NL")
  case False
  then show ?thesis by (simp add: rule3_def match_breaks3_def)
next
  case True
  have "(2 \<le> length (takeWhile (\<lambda>c. c = NL) cs)) = (take 2 cs = [NL, NL])"
    by (cases cs; cases "tl cs") (auto)
  with True show ?thesis
    by (auto simp: rule3_def match_breaks3_def Let_def drop_length_takeWhile)
qed

lemma rule4_Nil: "rule4 [] = []"
  by (simp add: rule4_def)

lemma rule4_Cons:
  "rule4 (c # cs) =
     (if c = SP \<and> take 1 cs = [SP]
      then SP # rule4 (dropWhile (\<lambda>c. c = SP) cs) else c # rule4 cs)"
proof (cases "c = SP")
  case False
  then show ?thesis by (simp add: rule4_def match_spaces2_def)
next
  case True
  have "(1 \<le> length (takeWhile (\<lambda>c. c = SP) cs)) = (take 1 cs = [SP])"
    by (cases cs) auto
  with True show ?thesis
    by (auto simp: rule4_def match_spaces2_def Let_def drop_length_takeWhile)
qed


lemma take1_eq: "take (Suc 0) cs = [x] \<longleftrightarrow> cs \<noteq> [] \<and> hd cs = x"
  by (cases cs) auto

lemma take2_eq: "take 2 cs = [x, y] \<longleftrightarrow> (\<exists>r. cs = x # y # r)"
  by (cases cs; cases "tl cs") auto

lemma successively_tl: "successively P (c # cs) \<Longrightarrow> successively P cs"
  by (cases cs) auto

lemma rule1_id: "\<not> has_hyphen_break s \<Longrightarrow> rule1 s = s"
  by (induction s rule: has_hyphen_break.induct) (auto simp: rule1_Cons rule1_Nil)

lemma rule4_id: "successively ok4 s \<Longrightarrow> rule4 s = s"
  by (induction s) (auto simp: rule4_Cons rule4_Nil take1_eq successively_Cons ok4_def)

lemma rule3_id: "no_breaks3 s \<Longrightarrow> rule3 s = s"
  by (induction s rule: no_breaks3.induct) (auto simp: rule3_Cons rule3_Nil)

lemma ok2_dropWhile:
  "successively ok2 (c # cs) \<Longrightarrow> c = SP \<or> c = TAB \<Longrightarrow>
     take 1 (dropWhile (\<lambda>c. c = SP \<or> c = TAB) cs) \<noteq> [NL]"
  by (induction cs arbitrary: c) (auto simp: ok2_def)

lemma rule2_id: "successively ok2 s \<Longrightarrow> rule2 s = s"
proof (induction s)
  case Nil
  then show ?case by (simp add: rule2_Nil)
next
  case (Cons c cs)
  then have "rule2 cs = cs" by (auto dest: successively_tl)
  with Cons.prems ok2_dropWhile[of c cs] show ?case
    by (auto simp: rule2_Cons)
qed

lemma successively_dropWhile: "successively P s \<Longrightarrow> successively P (dropWhile Q s)"
  by (induction s) (auto simp: successively_Cons)

lemma no_breaks3_tl: "no_breaks3 (c # cs) \<Longrightarrow> no_breaks3 cs"
  by (cases cs; cases "tl cs") auto

lemma no_breaks3_dropWhile: "no_breaks3 s \<Longrightarrow> no_breaks3 (dropWhile Q s)"
  by (induction s) (auto dest: no_breaks3_tl)

lemma no_breaks3_Cons_other: "c \<noteq> NL \<Longrightarrow> no_breaks3 (c # cs) = no_breaks3 cs"
  by (cases cs; cases "tl cs") auto

lemma rule3_empty: "rule3 s = [] \<longleftrightarrow> s = []"
  by (cases s) (auto simp: rule3_Cons rule3_Nil)

lemma rule3_hd: "s \<noteq> [] \<Longrightarrow> hd (rule3 s) = hd s"
  by (cases s) (auto simp: rule3_Cons)

lemma rule4_empty: "rule4 s = [] \<longleftrightarrow> s = []"
  by (cases s) (auto simp: rule4_Cons rule4_Nil)

lemma rule4_hd: "s \<noteq> [] \<Longrightarrow> hd (rule4 s) = hd s"
  by (cases s) (auto simp: rule4_Cons)

lemma rule4_ok4: "successively ok4 (rule4 s)"
proof (induction "length s" arbitrary: s rule: less_induct)
  case less
  show ?case
  proof (cases s)
    case Nil
    then show ?thesis by (simp add: rule4_Nil)
  next
    case (Cons c cs)
    let ?r = "dropWhile (\<lambda>c. c = SP) cs"
    show ?thesis
    proof (cases "c = SP \<and> take 1 cs = [SP]")
      case True
      have "length ?r < length s" using Cons length_dropWhile_le[of "\<lambda>c. c = SP" cs] by simp
      then have 1: "successively ok4 (rule4 ?r)" by (rule less)
      have "successively ok4 (SP # rule4 ?r)"
      proof (cases "?r = []")
        case True
        then have "rule4 ?r = []" by (simp only: rule4_empty)
        then show ?thesis by simp
      next
        case False
        then have "hd ?r \<noteq> SP" using hd_dropWhile[of "\<lambda>c. c = SP" cs] by blast
        with False have "hd (rule4 ?r) \<noteq> SP" by (simp add: rule4_hd)
        with 1 show ?thesis by (simp add: successively_Cons ok4_def)
      qed
      with True Cons show ?thesis by (simp add: rule4_Cons)
    next
      case False
      have 2: "successively ok4 (rule4 cs)" using Cons by (intro less) simp
      have "successively ok4 (c # rule4 cs)"
      proof (cases "cs = []")
        case True
        then show ?thesis by (simp add: rule4_Nil)
      next
        case ne: False
        with False have "\<not> (c = SP \<and> hd cs = SP)" by (simp add: take1_eq)
        with ne 2 show ?thesis by (simp add: successively_Cons ok4_def rule4_hd)
      qed
      with False Cons show ?thesis by (auto simp: rule4_Cons)
    qed
  qed
qed

lemma successively_Cons_hd:
  "successively P (c # t) \<Longrightarrow> successively P t' \<Longrightarrow> (t' = [] \<longleftrightarrow> t = []) \<Longrightarrow>
     (t \<noteq> [] \<Longrightarrow> hd t' = hd t) \<Longrightarrow> successively P (c # t')"
  by (auto simp: successively_Cons)

lemma rule4_Cons_successively:
  "successively P (c # t) \<Longrightarrow> successively P (rule4 t) \<Longrightarrow> successively P (c # rule4 t)"
  by (rule successively_Cons_hd[where t = t]) (auto simp: rule4_empty rule4_hd)

lemma rule3_Cons_successively:
  "successively P (c # t) \<Longrightarrow> successively P (rule3 t) \<Longrightarrow> successively P (c # rule3 t)"
  by (rule successively_Cons_hd[where t = t]) (auto simp: rule3_empty rule3_hd)

lemma ok2_run: "successively ok2 (SP # cs) \<Longrightarrow> successively ok2 (SP # dropWhile (\<lambda>c. c = SP) cs)"
proof (induction cs)
  case Nil
  then show ?case by simp
next
  case (Cons x xs)
  show ?case
  proof (cases "x = SP")
    case True
    with Cons.prems have "successively ok2 (SP # xs)" by (auto dest: successively_tl)
    with Cons.IH True show ?thesis by simp
  next
    case False
    with Cons.prems show ?thesis by simp
  qed
qed

lemma rule4_ok2: "successively ok2 s \<Longrightarrow> successively ok2 (rule4 s)"
proof (induction "length s" arbitrary: s rule: less_induct)
  case less
  show ?case
  proof (cases s)
    case Nil
    then show ?thesis by (simp add: rule4_Nil)
  next
    case (Cons c cs)
    let ?r = "dropWhile (\<lambda>c. c = SP) cs"
    show ?thesis
    proof (cases "c = SP \<and> take 1 cs = [SP]")
      case True
      have len: "length ?r < length s"
        using Cons length_dropWhile_le[of "\<lambda>c. c = SP" cs] by simp
      from True Cons less.prems have run: "successively ok2 (SP # ?r)"
        by (auto intro: ok2_run)
      then have "successively ok2 ?r" by (rule successively_tl)
      with len have "successively ok2 (rule4 ?r)" by (intro less)
      with run have "successively ok2 (SP # rule4 ?r)"
        by (rule rule4_Cons_successively)
      with True Cons show ?thesis by (simp add: rule4_Cons)
    next
      case False
      from Cons less.prems have "successively ok2 cs" by (auto dest: successively_tl)
      with Cons have "successively ok2 (rule4 cs)" by (intro less) simp_all
      with less.prems[unfolded Cons] have "successively ok2 (c # rule4 cs)"
        by (rule rule4_Cons_successively)
      with False Cons show ?thesis by (auto simp: rule4_Cons)
    qed
  qed
qed

lemma ok2_NL: "successively ok2 t \<Longrightarrow> successively ok2 (NL # t)"
  by (simp add: successively_Cons ok2_def)

lemma rule3_ok2: "successively ok2 s \<Longrightarrow> successively ok2 (rule3 s)"
proof (induction "length s" arbitrary: s rule: less_induct)
  case less
  show ?case
  proof (cases s)
    case Nil
    then show ?thesis by (simp add: rule3_Nil)
  next
    case (Cons c cs)
    let ?r = "dropWhile (\<lambda>c. c = NL) cs"
    from Cons less.prems have cs: "successively ok2 cs" by (auto dest: successively_tl)
    show ?thesis
    proof (cases "c = NL \<and> take 2 cs = [NL, NL]")
      case True
      have len: "length ?r < length s"
        using Cons length_dropWhile_le[of "\<lambda>c. c = NL" cs] by simp
      from cs have "successively ok2 ?r" by (rule successively_dropWhile)
      with len have "successively ok2 (rule3 ?r)" by (intro less)
      then have "successively ok2 (NL # NL # rule3 ?r)" by (intro ok2_NL)
      with True Cons show ?thesis by (simp add: rule3_Cons)
    next
      case False
      from cs Cons have "successively ok2 (rule3 cs)" by (intro less) simp_all
      with less.prems[unfolded Cons] have "successively ok2 (c # rule3 cs)"
        by (rule rule3_Cons_successively)
      with False Cons show ?thesis by (auto simp: rule3_Cons)
    qed
  qed
qed

lemma nb3_skip1: "t = [] \<or> hd t \<noteq> NL \<Longrightarrow> no_breaks3 (a # t) = no_breaks3 t"
  by (cases t; cases "tl t") auto

lemma nb3_skip2: "t = [] \<or> hd t \<noteq> NL \<Longrightarrow> no_breaks3 (a # b # t) = no_breaks3 t"
  by (cases t; cases "tl t") auto

lemma nb3_NL_NL: "no_breaks3 (NL # NL # t) \<Longrightarrow> t = [] \<or> hd t \<noteq> NL"
  by (cases t) auto


lemma rule4_no_breaks3: "no_breaks3 s \<Longrightarrow> no_breaks3 (rule4 s)"
proof (induction "length s" arbitrary: s rule: less_induct)
  case less
  show ?case
  proof (cases s)
    case Nil
    then show ?thesis by (simp add: rule4_Nil)
  next
    case (Cons c cs)
    let ?r = "dropWhile (\<lambda>c. c = SP) cs"
    from Cons less.prems have cs: "no_breaks3 cs" by (auto dest: no_breaks3_tl)
    show ?thesis
    proof (cases "c = SP \<and> take 1 cs = [SP]")
      case True
      have len: "length ?r < length s"
        using Cons length_dropWhile_le[of "\<lambda>c. c = SP" cs] by simp
      from cs have "no_breaks3 ?r" by (rule no_breaks3_dropWhile)
      with len have "no_breaks3 (rule4 ?r)" by (intro less)
      then have "no_breaks3 (SP # rule4 ?r)" by (simp add: no_breaks3_Cons_other)
      with True Cons show ?thesis by (simp add: rule4_Cons)
    next
      case False
      then have eq: "rule4 s = c # rule4 cs" using Cons by (auto simp: rule4_Cons)
      from cs Cons have ih: "no_breaks3 (rule4 cs)" by (intro less) simp_all
      show ?thesis
      proof (cases "c = NL")
        case False
        with ih eq show ?thesis by (simp add: no_breaks3_Cons_other)
      next
        case cNL: True
        show ?thesis
        proof (cases cs)
          case Nil
          with eq show ?thesis by (simp add: rule4_Nil)
        next
          case (Cons d ds)
          show ?thesis
          proof (cases "d = NL")
            case False
            with Cons have "rule4 cs = [] \<or> hd (rule4 cs) \<noteq> NL" by (simp add: rule4_hd)
            then have "no_breaks3 (c # rule4 cs) = no_breaks3 (rule4 cs)" by (rule nb3_skip1)
            with ih eq show ?thesis by simp
          next
            case True
            with Cons have eq2: "rule4 cs = NL # rule4 ds" by (simp add: rule4_Cons)
            from less.prems \<open>s = c # cs\<close> cNL Cons True have "ds = [] \<or> hd ds \<noteq> NL"
              by (auto dest: nb3_NL_NL)
            then have "rule4 ds = [] \<or> hd (rule4 ds) \<noteq> NL"
              by (auto simp: rule4_empty rule4_hd)
            then have "no_breaks3 (NL # NL # rule4 ds) = no_breaks3 (rule4 ds)" by (rule nb3_skip2)
            moreover have "no_breaks3 (rule4 ds)"
              using cs Cons \<open>s = c # cs\<close> by (intro less) (auto dest: no_breaks3_tl)
            ultimately show ?thesis using eq eq2 cNL by simp
          qed
        qed
      qed
    qed
  qed
qed

lemma rule3_no_breaks3: "no_breaks3 (rule3 s)"
proof (induction "length s" arbitrary: s rule: less_induct)
  case less
  show ?case
  proof (cases s)
    case Nil
    then show ?thesis by (simp add: rule3_Nil)
  next
    case (Cons c cs)
    let ?r = "dropWhile (\<lambda>c. c = NL) cs"
    show ?thesis
    proof (cases "c = NL \<and> take 2 cs = [NL, NL]")
      case True
      have len: "length ?r < length s"
        using Cons length_dropWhile_le[of "\<lambda>c. c = NL" cs] by simp
      then have ih: "no_breaks3 (rule3 ?r)" by (intro less)
      have "?r = [] \<or> hd ?r \<noteq> NL" using hd_dropWhile[of "\<lambda>c. c = NL" cs] by blast
      then have "rule3 ?r = [] \<or> hd (rule3 ?r) \<noteq> NL"
        using rule3_empty[of ?r] rule3_hd[of ?r] by metis
      then have "no_breaks3 (NL # NL # rule3 ?r) = no_breaks3 (rule3 ?r)" by (rule nb3_skip2)
      with ih True Cons show ?thesis by (simp add: rule3_Cons)
    next
      case False
      then have eq: "rule3 s = c # rule3 cs" using Cons by (auto simp: rule3_Cons)
      from Cons have ih: "no_breaks3 (rule3 cs)" by (intro less) simp_all
      show ?thesis
      proof (cases "c = NL")
        case False
        with ih eq show ?thesis by (simp add: no_breaks3_Cons_other)
      next
        case cNL: True
        show ?thesis
        proof (cases cs)
          case Nil
          with eq show ?thesis by (simp add: rule3_Nil)
        next
          case cs: (Cons d ds)
          show ?thesis
          proof (cases "d = NL")
            case False
            with cs have "rule3 cs = [] \<or> hd (rule3 cs) \<noteq> NL" by (simp add: rule3_hd)
            then have "no_breaks3 (c # rule3 cs) = no_breaks3 (rule3 cs)" by (rule nb3_skip1)
            with ih eq show ?thesis by simp
          next
            case True
            from \<open>\<not> (c = NL \<and> take 2 cs = [NL, NL])\<close> cNL cs True
            have ds: "ds = [] \<or> hd ds \<noteq> NL" by (cases ds) auto
            then have "take 2 ds \<noteq> [NL, NL]" by (cases ds) auto
            with cs True have eq2: "rule3 cs = NL # rule3 ds" by (simp add: rule3_Cons)
            from ds have "rule3 ds = [] \<or> hd (rule3 ds) \<noteq> NL"
              by (auto simp: rule3_empty rule3_hd)
            then have "no_breaks3 (NL # NL # rule3 ds) = no_breaks3 (rule3 ds)" by (rule nb3_skip2)
            moreover have "no_breaks3 (rule3 ds)"
              using cs \<open>s = c # cs\<close> by (intro less) auto
            ultimately show ?thesis using eq eq2 cNL by simp
          qed
        qed
      qed
    qed
  qed
qed


lemma rule2_hd_NL:
  assumes "rule2 s \<noteq> []" "hd (rule2 s) = NL"
  shows "take 1 (dropWhile (\<lambda>c. c = SP \<or> c = TAB) s) = [NL]"
proof (cases s)
  case Nil
  with assms show ?thesis by (simp add: rule2_Nil)
next
  case (Cons x xs)
  with assms show ?thesis by (auto simp: rule2_Cons split: if_splits)
qed

lemma rule2_ok2: "successively ok2 (rule2 s)"
proof (induction "length s" arbitrary: s rule: less_induct)
  case less
  show ?case
  proof (cases s)
    case Nil
    then show ?thesis by (simp add: rule2_Nil)
  next
    case (Cons c cs)
    let ?B = "\<lambda>c. c = SP \<or> c = TAB"
    let ?r = "drop 1 (dropWhile ?B cs)"
    show ?thesis
    proof (cases "?B c \<and> take 1 (dropWhile ?B cs) = [NL]")
      case True
      have "length ?r < length s"
        using Cons length_dropWhile_le[of ?B cs] by simp
      then have "successively ok2 (rule2 ?r)" by (intro less)
      then have "successively ok2 (NL # rule2 ?r)" by (rule ok2_NL)
      with True Cons show ?thesis by (simp add: rule2_Cons)
    next
      case False
      then have eq: "rule2 s = c # rule2 cs" using Cons by (auto simp: rule2_Cons)
      from Cons have ih: "successively ok2 (rule2 cs)" by (intro less) simp_all
      have "ok2 c (hd (rule2 cs))" if ne: "rule2 cs \<noteq> []"
      proof (rule ccontr)
        assume "\<not> ok2 c (hd (rule2 cs))"
        then have c: "?B c" and h: "hd (rule2 cs) = NL" by (auto simp: ok2_def)
        from ne h have "take 1 (dropWhile ?B cs) = [NL]" by (rule rule2_hd_NL)
        with c False show False by simp
      qed
      with ih eq show ?thesis by (auto simp: successively_Cons)
    qed
  qed
qed


lemma normalize_idempotent_if:
  assumes "\<not> has_hyphen_break (normalize_text t)"
  shows "normalize_text (normalize_text t) = normalize_text t"
proof (cases "is_blank t")
  case True
  then show ?thesis by (simp add: normalize_text_def)
next
  case False
  define u where "u = rule4 (rule3 (rule2 (rule1 t)))"
  from False have nt: "normalize_text t = u" by (simp add: normalize_text_def u_def)
  have "successively ok2 (rule2 (rule1 t))" by (rule rule2_ok2)
  then have "successively ok2 (rule3 (rule2 (rule1 t)))" by (rule rule3_ok2)
  then have "successively ok2 u" unfolding u_def by (rule rule4_ok2)
  then have 2: "rule2 u = u" by (rule rule2_id)
  have "no_breaks3 (rule3 (rule2 (rule1 t)))" by (rule rule3_no_breaks3)
  then have "no_breaks3 u" unfolding u_def by (rule rule4_no_breaks3)
  then have 3: "rule3 u = u" by (rule rule3_id)
  have "successively ok4 u" unfolding u_def by (rule rule4_ok4)
  then have 4: "rule4 u = u" by (rule rule4_id)
  from assms nt have 1: "rule1 u = u" by (simp add: rule1_id)
  from 1 2 3 4 have "normalize_text u = u" by (simp add: normalize_text_def)
  with nt show ?thesis by simp
qed

lemma re_sub_length:
  assumes "\<And>s n. m s = Some n \<Longrightarrow> length repl \<le> n \<and> n \<le> length s"
  shows "length (re_sub m repl s) \<le> length s"
proof (induction "length s" arbitrary: s rule: less_induct)
  case less
  show ?case
  proof (cases s)
    case Nil
    then show ?thesis by simp
  next
    case (Cons c cs)
    have ih: "length (re_sub m repl cs) \<le> length cs" using Cons by (intro less) simp
    show ?thesis
    proof (cases "m (c # cs)")
      case None
      with ih Cons show ?thesis by simp
    next
      case (Some n)
      show ?thesis
      proof (cases "0 < n")
        case True
        from assms[OF Some] have b: "length repl \<le> n" "n \<le> length (c # cs)" by simp_all
        have "length (re_sub m repl (drop n (c # cs))) \<le> length (drop n (c # cs))"
          using True Cons by (intro less) simp
        with b Some True Cons show ?thesis by simp
      next
        case False
        with ih Some Cons show ?thesis by simp
      qed
    qed
  qed
qed

lemma rule_lengths:
  "length (rule1 s) \<le> length s" "length (rule2 s) \<le> length s"
  "length (rule3 s) \<le> length s" "length (rule4 s) \<le> length s"
proof -
  show "length (rule1 s) \<le> length s" unfolding rule1_def
    by (rule re_sub_length) (auto simp: match_hyphen_break_def take2_eq split: if_splits)
  show "length (rule2 s) \<le> length s" unfolding rule2_def
  proof (rule re_sub_length)
    fix s n assume "match_trailing_blanks s = Some n"
    then have n: "n = length (takeWhile (\<lambda>c. c = SP \<or> c = TAB) s) + 1"
      and t: "take 1 (drop (length (takeWhile (\<lambda>c. c = SP \<or> c = TAB) s)) s) = [NL]"
      by (auto simp: match_trailing_blanks_def Let_def split: if_splits)
    from t have "length (takeWhile (\<lambda>c. c = SP \<or> c = TAB) s) < length s"
      by (cases "length (takeWhile (\<lambda>c. c = SP \<or> c = TAB) s) < length s") auto
    with n show "length [NL] \<le> n \<and> n \<le> length s" by simp
  qed
  show "length (rule3 s) \<le> length s" unfolding rule3_def
  proof (rule re_sub_length)
    fix s n assume "match_breaks3 s = Some n"
    then have "n = length (takeWhile (\<lambda>c. c = NL) s)" "3 \<le> n"
      by (auto simp: match_breaks3_def Let_def split: if_splits)
    then show "length [NL, NL] \<le> n \<and> n \<le> length s" using length_takeWhile_le[of "\<lambda>c. c = NL" s] by simp
  qed
  show "length (rule4 s) \<le> length s" unfolding rule4_def
  proof (rule re_sub_length)
    fix s n assume "match_spaces2 s = Some n"
    then have "n = length (takeWhile (\<lambda>c. c = SP) s)" "2 \<le> n"
      by (auto simp: match_spaces2_def Let_def split: if_splits)
    then show "length [SP] \<le> n \<and> n \<le> length s" using length_takeWhile_le[of "\<lambda>c. c = SP" s] by simp
  qed
qed

lemma rule1_shorter: "has_hyphen_break s \<Longrightarrow> length (rule1 s) < length s"
proof (induction s rule: has_hyphen_break.induct)
  case (1 a b cs)
  show ?case
  proof (cases "a = HYPHEN \<and> b = NL")
    case True
    then have "rule1 (a # b # cs) = rule1 cs" by (simp add: rule1_Cons)
    with rule_lengths(1)[of cs] show ?thesis by simp
  next
    case False
    with 1 have "length (rule1 (b # cs)) < length (b # cs)" by simp
    moreover from False have "rule1 (a # b # cs) = a # rule1 (b # cs)" by (auto simp: rule1_Cons)
    ultimately show ?thesis by simp
  qed
qed simp_all

lemma strip_empty: "strip s = [] \<longleftrightarrow> (\<forall>c\<in>set s. isspace c)"
proof -
  let ?d = "dropWhile isspace s"
  have 1: "strip s = [] \<longleftrightarrow> (\<forall>c\<in>set ?d. isspace c)"
    by (simp add: strip_def lstrip_def rstrip_def dropWhile_eq_Nil_conv)
  have 2: "(\<forall>c\<in>set ?d. isspace c) \<longleftrightarrow> ?d = []"
  proof (cases "?d = []")
    case True
    then show ?thesis by (simp only: list.set ball_empty simp_thms)
  next
    case False
    then have "\<not> isspace (hd ?d)" "hd ?d \<in> set ?d"
      using hd_dropWhile[of isspace s] by simp_all
    with False show ?thesis by blast
  qed
  have 3: "?d = [] \<longleftrightarrow> (\<forall>c\<in>set s. isspace c)" by (simp add: dropWhile_eq_Nil_conv)
  from 1 2 3 show ?thesis by (simp only:)
qed

lemma hyphen_break_not_blank: "has_hyphen_break s \<Longrightarrow> \<not> is_blank s"
proof -
  assume h: "has_hyphen_break s"
  then have "HYPHEN \<in> set s" by (induction s rule: has_hyphen_break.induct) auto
  moreover have "\<not> isspace HYPHEN" by (simp add: isspace_def)
  ultimately have "strip s \<noteq> []" by (auto simp: strip_empty)
  moreover from h have "s \<noteq> []" by auto
  ultimately show ?thesis by (simp add: is_blank_def)
qed

lemma normalize_changes_hyphen_break:
  assumes "has_hyphen_break u"
  shows "length (normalize_text u) < length u"
proof -
  from assms have "normalize_text u = rule4 (rule3 (rule2 (rule1 u)))"
    by (simp add: normalize_text_def hyphen_break_not_blank)
  moreover have "length (rule4 (rule3 (rule2 (rule1 u)))) \<le> length (rule1 u)"
    using rule_lengths(4)[of "rule3 (rule2 (rule1 u))"] rule_lengths(3)[of "rule2 (rule1 u)"]
      rule_lengths(2)[of "rule1 u"] by simp
  ultimately show ?thesis using rule1_shorter[OF assms] by simp
qed

text \<open>
  Claim C3, as amended. The normalization pass is idempotent exactly on the texts whose
  normalized form has no hyphen directly followed by a line break:
  \<open>normalize_text (normalize_text t) = normalize_text t\<close> holds if and only if
  \<open>normalize_text t\<close> contains no such pair. It is not idempotent in general: rule 2
  (and rule 1 itself) can leave a hyphen directly before a line break, which a second
  pass deletes.
\<close>

theorem normalize_idempotent_iff:
  "normalize_text (normalize_text t) = normalize_text t \<longleftrightarrow>
     \<not> has_hyphen_break (normalize_text t)"
proof
  assume eq: "normalize_text (normalize_text t) = normalize_text t"
  show "\<not> has_hyphen_break (normalize_text t)"
  proof
    assume "has_hyphen_break (normalize_text t)"
    then have "length (normalize_text (normalize_text t)) < length (normalize_text t)"
      by (rule normalize_changes_hyphen_break)
    with eq show False by simp
  qed
next
  assume "\<not> has_hyphen_break (normalize_text t)"
  then show "normalize_text (normalize_text t) = normalize_text t"
    by (rule normalize_idempotent_if)
qed

theorem normalize_idempotent_witness:
  "\<not> has_hyphen_break (normalize_text [97, SP, SP, 98, SP, NL, NL, NL, NL, 99]) \<and>
   normalize_text (normalize_text [97, SP, SP, 98, SP, NL, NL, NL, NL, 99]) =
     normalize_text [97, SP, SP, 98, SP, NL, NL, NL, NL, 99]"
proof -
  have h: "\<not> has_hyphen_break (normalize_text [97, SP, SP, 98, SP, NL, NL, NL, NL, 99])"
    by (simp add: norm_eval)
  from normalize_idempotent_iff[of "[97, SP, SP, 98, SP, NL, NL, NL, NL, 99]"] h
  show ?thesis by simp
qed

text \<open>
  The text \<open>a- \nb\<close>: the first pass removes the space before the break, which
  leaves \<open>a-\nb\<close>; the second pass joins it to \<open>ab\<close>.
\<close>

theorem normalize_not_idempotent:
  "normalize_text [97, HYPHEN, SP, NL, 98] = [97, HYPHEN, NL, 98] \<and>
   normalize_text (normalize_text [97, HYPHEN, SP, NL, 98]) = [97, 98] \<and>
   normalize_text (normalize_text [97, HYPHEN, SP, NL, 98]) \<noteq> normalize_text [97, HYPHEN, SP, NL, 98]"
  by (simp add: norm_eval)

lemma last_dropWhile: "dropWhile P xs \<noteq> [] \<Longrightarrow> last (dropWhile P xs) = last xs"
  by (induction xs) (auto split: if_splits)

lemma rule4_append:
  "a = [] \<or> last a \<noteq> SP \<or> b = [] \<or> hd b \<noteq> SP \<Longrightarrow> rule4 (a @ b) = rule4 a @ rule4 b"
proof (induction "length a" arbitrary: a rule: less_induct)
  case less
  show ?case
  proof (cases a)
    case Nil
    then show ?thesis by (simp add: rule4_Nil)
  next
    case (Cons c cs)
    let ?S = "\<lambda>c. c = SP"
    show ?thesis
    proof (cases "c = SP \<and> take 1 cs = [SP]")
      case True
      then have m: "take 1 (cs @ b) = [SP]" by (cases cs) auto
      show ?thesis
      proof (cases "\<forall>x\<in>set cs. x = SP")
        case all: True
        then have "last a = SP" using Cons True by (cases cs rule: rev_cases) auto
        with less.prems Cons have "b = [] \<or> hd b \<noteq> SP" by auto
        then have "dropWhile ?S b = b" by (cases b) auto
        with all have d1: "dropWhile ?S (cs @ b) = b"
          by (simp add: dropWhile_append2)
        from all have d2: "dropWhile ?S cs = []" by simp
        have ra: "rule4 a = SP # rule4 (dropWhile ?S cs)"
          using True Cons by (simp add: rule4_Cons)
        have rab: "rule4 (a @ b) = SP # rule4 (dropWhile ?S (cs @ b))"
          using True m Cons by (simp add: rule4_Cons)
        show ?thesis unfolding ra rab d1 d2 by (simp add: rule4_Nil)
      next
        case ex: False
        then have d: "dropWhile ?S (cs @ b) = dropWhile ?S cs @ b"
          by (auto simp: dropWhile_append1)
        from ex have ne: "dropWhile ?S cs \<noteq> []" by auto
        then have "last (dropWhile ?S cs) = last cs" by (rule last_dropWhile)
        moreover from ne have "cs \<noteq> []" by auto
        ultimately have l: "last (dropWhile ?S cs) = last a" using Cons by simp
        have "length (dropWhile ?S cs) < length a"
          using Cons length_dropWhile_le[of ?S cs] by simp
        then have "rule4 (dropWhile ?S cs @ b) = rule4 (dropWhile ?S cs) @ rule4 b"
          using less.prems l Cons by (intro less) auto
        with True m d Cons show ?thesis by (simp add: rule4_Cons)
      qed
    next
      case False
      have nm: "\<not> (c = SP \<and> take 1 (cs @ b) = [SP])"
      proof (cases cs)
        case Nil
        with less.prems Cons show ?thesis by (cases b) auto
      next
        case (Cons x xs)
        with False show ?thesis by auto
      qed
      have "rule4 (cs @ b) = rule4 cs @ rule4 b"
        using less.prems Cons by (intro less) (auto split: if_splits)
      with False nm Cons show ?thesis by (auto simp: rule4_Cons)
    qed
  qed
qed

lemma rule4_spaces:
  assumes "1 \<le> n"
  shows "rule4 (replicate n SP) = [SP]"
proof (cases n)
  case 0
  with assms show ?thesis by simp
next
  case (Suc k)
  have d: "dropWhile (\<lambda>c. c = SP) (replicate k SP) = []" by simp
  have "rule4 (SP # replicate k SP) = [SP]"
    unfolding rule4_Cons[of SP "replicate k SP"] d by (cases k) (simp_all add: rule4_Nil)
  with Suc show ?thesis by simp
qed

lemma rule4_no_space: "SP \<notin> set s \<Longrightarrow> rule4 s = s"
  by (induction s) (auto simp: rule4_Cons rule4_Nil)


text \<open>
  Claim C4, as amended. Rule 4 collapses every run of two or more consecutive space
  characters into a single space, and only those: a run of \<open>n \<ge> 2\<close> spaces between a
  part that does not end with a space and a part that does not start with one becomes
  one space, while a run of tabs stays as it is.
\<close>

theorem rule4_collapses_spaces_only:
  "(2 \<le> n \<and> (a = [] \<or> last a \<noteq> SP) \<and> (b = [] \<or> hd b \<noteq> SP) \<longrightarrow>
      rule4 (a @ replicate n SP @ b) = rule4 a @ [SP] @ rule4 b) \<and>
   (1 \<le> n \<longrightarrow> rule4 (a @ replicate n TAB @ b) = rule4 a @ replicate n TAB @ rule4 b)"
proof (intro conjI impI)
  assume h: "2 \<le> n \<and> (a = [] \<or> last a \<noteq> SP) \<and> (b = [] \<or> hd b \<noteq> SP)"
  then have "rule4 (a @ (replicate n SP @ b)) = rule4 a @ rule4 (replicate n SP @ b)"
    by (intro rule4_append) auto
  also have "rule4 (replicate n SP @ b) = rule4 (replicate n SP) @ rule4 b"
    using h by (intro rule4_append) auto
  also have "rule4 (replicate n SP) = [SP]" using h by (intro rule4_spaces) auto
  finally show "rule4 (a @ replicate n SP @ b) = rule4 a @ [SP] @ rule4 b" .
next
  assume h: "1 \<le> n"
  then have hd: "hd (replicate n TAB @ b) = TAB" by (cases n) auto
  from h have lst: "last (replicate n TAB) = TAB" by (cases n) auto
  have "rule4 (a @ (replicate n TAB @ b)) = rule4 a @ rule4 (replicate n TAB @ b)"
    using hd by (intro rule4_append) auto
  also have "rule4 (replicate n TAB @ b) = rule4 (replicate n TAB) @ rule4 b"
    using lst by (intro rule4_append) auto
  also have "rule4 (replicate n TAB) = replicate n TAB" by (intro rule4_no_space) auto
  finally show "rule4 (a @ replicate n TAB @ b) = rule4 a @ replicate n TAB @ rule4 b" .
qed

theorem rule4_collapses_spaces_only_witness:
  "rule4 ([97] @ replicate 3 SP @ [98]) = rule4 [97] @ [SP] @ rule4 [98] \<and>
   rule4 ([97] @ replicate 3 TAB @ [98]) = rule4 [97] @ replicate 3 TAB @ rule4 [98]"
  using rule4_collapses_spaces_only[of 3 "[97]" "[98]"] by simp

text \<open>
  The texts \<open>a\t\tb\<close> and \<open>a \tb\<close> come out of the whole normalization pass
  unchanged: the run is not replaced by one space.
\<close>

theorem normalize_keeps_tab_runs:
  "normalize_text [97, TAB, TAB, 98] = [97, TAB, TAB, 98] \<and>
   normalize_text [97, SP, TAB, 98] = [97, SP, TAB, 98] \<and>
   normalize_text [97, TAB, TAB, 98] \<noteq> [97, SP, 98] \<and>
   normalize_text [97, SP, TAB, 98] \<noteq> [97, SP, 98]"
  by (simp add: norm_eval)


section \<open>The corrector: tokens and fallback\<close>

lemma strip_prefix_eq:
  "strip_prefix U p s = (p @ takeWhile (\<lambda>c. \<not> isalnum U c) s, dropWhile (\<lambda>c. \<not> isalnum U c) s)"
  by (induction s arbitrary: p) auto

lemma strip_suffix_eq:
  "strip_suffix U suf s =
     (rev (takeWhile (\<lambda>c. \<not> isalnum U c) (rev s)) @ suf,
      rev (dropWhile (\<lambda>c. \<not> isalnum U c) (rev s)))"
proof (induction s arbitrary: suf rule: rev_induct)
  case Nil
  then show ?case by (subst strip_suffix.simps) simp
next
  case (snoc x xs)
  show ?case
  proof (cases "isalnum U x")
    case True
    then show ?thesis by (subst strip_suffix.simps) simp
  next
    case False
    then show ?thesis by (subst strip_suffix.simps) (simp add: snoc.IH)
  qed
qed

lemma alpha_core_nonempty:
  assumes "\<exists>ch\<in>set tok. isalpha U ch"
  shows "rev (dropWhile (\<lambda>c. \<not> isalnum U c) (rev (dropWhile (\<lambda>c. \<not> isalnum U c) tok))) \<noteq> []"
proof -
  from assms obtain ch where ch: "ch \<in> set tok" "isalnum U ch" by (auto simp: isalnum_def)
  then have "dropWhile (\<lambda>c. \<not> isalnum U c) tok \<noteq> []" by auto
  then have "isalnum U (hd (dropWhile (\<lambda>c. \<not> isalnum U c) tok))"
    using hd_dropWhile[of "\<lambda>c. \<not> isalnum U c" tok] by simp
  moreover have "hd (dropWhile (\<lambda>c. \<not> isalnum U c) tok) \<in> set (rev (dropWhile (\<lambda>c. \<not> isalnum U c) tok))"
    using \<open>dropWhile (\<lambda>c. \<not> isalnum U c) tok \<noteq> []\<close> by simp
  ultimately have "dropWhile (\<lambda>c. \<not> isalnum U c) (rev (dropWhile (\<lambda>c. \<not> isalnum U c) tok)) \<noteq> []"
    by (auto simp: dropWhile_eq_Nil_conv)
  then show ?thesis by simp
qed

lemma token_parts:
  "takeWhile P tok @ rev (dropWhile P (rev (dropWhile P tok))) @ rev (takeWhile P (rev (dropWhile P tok))) = tok"
proof -
  have "rev (dropWhile P (rev r)) @ rev (takeWhile P (rev r)) = r" for r
    by (metis rev_append rev_rev_ident takeWhile_dropWhile_id)
  then show ?thesis by simp
qed

text \<open>
  Claim C8. When the dictionary backend corrects a token, the leading run and the
  trailing run of non-alphanumeric characters are put back unchanged around the
  corrected core (the suggestion, or the core itself when there is no suggestion), and
  a token without any alphabetic character passes through unchanged. This holds for
  every lookup that returns; a lookup that raises yields no token.
\<close>

theorem correct_token_keeps_punctuation:
  "(let prefix = takeWhile (\<lambda>c. \<not> isalnum U c) tok;
        rest = dropWhile (\<lambda>c. \<not> isalnum U c) tok;
        suffix = rev (takeWhile (\<lambda>c. \<not> isalnum U c) (rev rest));
        core = rev (dropWhile (\<lambda>c. \<not> isalnum U c) (rev rest))
    in tok = prefix @ core @ suffix \<and>
       correct_token U sp tok =
         (if \<exists>ch\<in>set tok. isalpha U ch
          then (case correction sp core of
                  Inl e \<Rightarrow> Inl e
                | Inr (Some suggestion) \<Rightarrow>
                    Inr (prefix @ (if suggestion \<noteq> [] then suggestion else core) @ suffix)
                | Inr None \<Rightarrow> Inr (prefix @ core @ suffix))
          else Inr tok))"
proof -
  let ?P = "\<lambda>c. \<not> isalnum U c"
  let ?core = "rev (dropWhile ?P (rev (dropWhile ?P tok)))"
  have parts: "takeWhile ?P tok @ ?core @ rev (takeWhile ?P (rev (dropWhile ?P tok))) = tok"
    by (rule token_parts)
  show ?thesis
  proof (cases "\<exists>ch\<in>set tok. isalpha U ch")
    case False
    then show ?thesis using parts by (simp add: correct_token_def Let_def)
  next
    case True
    then have ne: "?core \<noteq> []" by (rule alpha_core_nonempty)
    show ?thesis
      using True ne parts
      by (simp add: correct_token_def Let_def strip_prefix_eq strip_suffix_eq
          split: option.split sum.split)
  qed
qed

text \<open>The token \<open>!hola!\<close> with an inverted exclamation mark (code point 161) in front.\<close>

theorem correct_token_keeps_punctuation_witness:
  "correct_token latin1_db hola_checker [161, 104, 111, 108, 97, 33] =
     Inr [161, 72, 111, 108, 97, 33] \<and>
   correct_token latin1_db hola_checker [45, 45, 45] = Inr [45, 45, 45]"
  using correct_token_keeps_punctuation[of latin1_db "[161, 104, 111, 108, 97, 33]" hola_checker]
    correct_token_keeps_punctuation[of latin1_db "[45, 45, 45]" hola_checker]
  by (simp add: latin1_db_def isalnum_def hola_checker_def Let_def)

lemma correct_token_raises:
  "correct_token U sp tok = Inl e \<Longrightarrow> \<exists>w. correction sp w = Inl e"
  by (auto simp: correct_token_def split: if_splits prod.splits sum.splits option.splits)

lemma correct_tokens_raises:
  "correct_tokens U sp toks = Inl e \<Longrightarrow> \<exists>w. correction sp w = Inl e"
proof (induction toks)
  case Nil
  then show ?case by simp
next
  case (Cons tok toks)
  then show ?case
    by (auto split: sum.splits dest: correct_token_raises)
qed

lemma dictionary_pass_raises:
  "dictionary_pass U sp t = Inl e \<Longrightarrow> \<exists>w. correction sp w = Inl e"
  by (auto simp: dictionary_pass_def split: sum.splits dest: correct_tokens_raises)

lemma correct_spanish_text_normalize:
  "correct_spanish_text U g text =
     (if is_blank text then Inr text
      else case grammar_pass g (normalize_text text) of
             Some corrected \<Rightarrow> Inr corrected
           | None \<Rightarrow> (case spell g of Some sp \<Rightarrow> dictionary_pass U sp (normalize_text text)
                       | None \<Rightarrow> Inr (normalize_text text)))"
proof (cases "is_blank text")
  case True
  then show ?thesis by (simp add: correct_spanish_text_def is_blank_def)
next
  case False
  then have n: "normalize_text text =
      re_sub match_spaces2 [SP] (re_sub match_breaks3 [NL, NL]
        (re_sub match_trailing_blanks [NL] (re_sub match_hyphen_break [] text)))"
    by (simp add: normalize_text_def rule1_def rule2_def rule3_def rule4_def)
  from False show ?thesis unfolding n
    by (simp add: correct_spanish_text_def is_blank_def Let_def)
qed

lemma setup_spell_tools_exclusive:
  "lt_tool (setup_spell_tools lt_init spell_init initial_tools) = None \<or>
   spell (setup_spell_tools lt_init spell_init initial_tools) = None"
  by (simp add: setup_spell_tools_def initial_tools_def split: sum.split)

text \<open>
  Claim C1, as amended. The grammar tool's \<open>check\<close> is called on the normalized text
  of a non-blank input. Whenever that call raises, \<open>correct_spanish_text\<close> swallows
  the exception and goes on with the dictionary backend: the outcome of the call is the
  outcome of the word-by-word pass over the normalized text, or the normalized text
  itself when there is no dictionary backend. The grammar tool's exception never
  reaches the caller; an exception that does reach the caller was raised by a lookup
  of the dictionary backend, which no handler encloses.
\<close>

theorem grammar_failure_falls_back:
  assumes "lt_tool g = Some lt" and "\<not> is_blank text" and "check lt (normalize_text text) = Inl e"
  shows "correct_spanish_text U g text =
           (case spell g of
              Some sp \<Rightarrow> dictionary_pass U sp (normalize_text text)
            | None \<Rightarrow> Inr (normalize_text text)) \<and>
         (\<forall>e'. correct_spanish_text U g text = Inl e' \<longrightarrow>
               (\<exists>sp w. spell g = Some sp \<and> correction sp w = Inl e'))"
proof -
  have eq: "correct_spanish_text U g text =
           (case spell g of
              Some sp \<Rightarrow> dictionary_pass U sp (normalize_text text)
            | None \<Rightarrow> Inr (normalize_text text))"
    using assms by (simp add: correct_spanish_text_normalize grammar_pass_def)
  have "\<exists>sp w. spell g = Some sp \<and> correction sp w = Inl e'"
    if "correct_spanish_text U g text = Inl e'" for e'
  proof (cases "spell g")
    case None
    with eq that show ?thesis by simp
  next
    case (Some sp)
    with eq that have "dictionary_pass U sp (normalize_text text) = Inl e'" by simp
    then obtain w where "correction sp w = Inl e'" by (auto dest: dictionary_pass_raises)
    with Some show ?thesis by blast
  qed
  with eq show ?thesis by blast
qed

theorem grammar_failure_falls_back_witness:
  "lt_tool \<lparr> lt_tool = Some failing_tool, spell = Some hola_checker, USE_LT = True \<rparr>
     = Some failing_tool \<and>
   \<not> is_blank [161, 104, 111, 108, 97, 33, SP, SP, HYPHEN, HYPHEN] \<and>
   check failing_tool (normalize_text [161, 104, 111, 108, 97, 33, SP, SP, HYPHEN, HYPHEN])
     = Inl (Exception ''connection refused'') \<and>
   correct_spanish_text latin1_db
     \<lparr> lt_tool = Some failing_tool, spell = Some hola_checker, USE_LT = True \<rparr>
     [161, 104, 111, 108, 97, 33, SP, SP, HYPHEN, HYPHEN]
     = Inr [161, 72, 111, 108, 97, 33, SP, HYPHEN, HYPHEN]"
proof -
  let ?g = "\<lparr> lt_tool = Some failing_tool, spell = Some hola_checker, USE_LT = True \<rparr>"
  let ?t = "[161, 104, 111, 108, 97, 33, SP, SP, HYPHEN, HYPHEN]"
  have 1: "lt_tool ?g = Some failing_tool" by simp
  have 2: "\<not> is_blank ?t" by (simp add: norm_eval)
  have 3: "check failing_tool (normalize_text ?t) = Inl (Exception ''connection refused'')"
    by (simp add: failing_tool_def)
  have n: "normalize_text ?t = [161, 104, 111, 108, 97, 33, SP, HYPHEN, HYPHEN]"
    by (simp add: norm_eval)
  have d: "dictionary_pass latin1_db hola_checker [161, 104, 111, 108, 97, 33, SP, HYPHEN, HYPHEN]
             = Inr [161, 72, 111, 108, 97, 33, SP, HYPHEN, HYPHEN]"
    by (simp add: dictionary_pass_def split_def isspace_def correct_token_def strip_prefix_eq
        strip_suffix_eq latin1_db_def isalnum_def hola_checker_def)
  from grammar_failure_falls_back[OF 1 2 3, of latin1_db] 1 2 3 n d show ?thesis by simp
qed

text \<open>
  The grammar tool is down and the dictionary's lookup raises on the word \<open>hola\<close>:
  the call ends with the dictionary's exception.
\<close>

theorem dictionary_exception_propagates:
  "check failing_tool (normalize_text [104, 111, 108, 97]) = Inl (Exception ''connection refused'') \<and>
   correct_spanish_text latin1_db
     \<lparr> lt_tool = Some failing_tool, spell = Some raising_checker, USE_LT = True \<rparr>
     [104, 111, 108, 97]
     = Inl (Exception ''lookup failed'')"
  by (simp add: correct_spanish_text_normalize norm_eval grammar_pass_def failing_tool_def
      dictionary_pass_def split_def correct_token_def strip_prefix_eq strip_suffix_eq
      latin1_db_def isalnum_def raising_checker_def)

lemma correct_token_returns: "\<exists>t. correct_token U (returning_checker f) tok = Inr t"
  by (simp add: correct_token_def returning_checker_def split: prod.split option.split)

lemma correct_tokens_returns: "\<exists>ts. correct_tokens U (returning_checker f) toks = Inr ts"
proof (induction toks)
  case Nil
  then show ?case by simp
next
  case (Cons tok toks)
  from correct_token_returns[of U f tok] obtain t
    where "correct_token U (returning_checker f) tok = Inr t" by blast
  with Cons show ?case by auto
qed

lemma correct_spanish_text_returns:
  "\<exists>t. correct_spanish_text U
          \<lparr> lt_tool = lt, spell = map_option returning_checker dict, USE_LT = b \<rparr> txt0 = Inr t"
proof -
  have "\<exists>t. dictionary_pass U (returning_checker f) s = Inr t" for f s
    using correct_tokens_returns[of U f "split s"] by (auto simp: dictionary_pass_def)
  then show ?thesis
    by (cases dict) (auto simp: correct_spanish_text_normalize split: option.split)
qed

section \<open>The layout step: page counts\<close>

lemma page_breaks_add:
  "page_breaks lh b ys y (m + n) = page_breaks lh b ys y m + page_breaks lh b ys (cursor_after lh b ys y m) n"
  by (induction m arbitrary: y) auto

lemma cursor_after_add:
  "cursor_after lh b ys y (m + n) = cursor_after lh b ys (cursor_after lh b ys y m) n"
  by (induction m arbitrary: y) auto

lemma page_breaks_mono: "m \<le> n \<Longrightarrow> page_breaks lh b ys y m \<le> page_breaks lh b ys y n"
  using page_breaks_add[of lh b ys y m "n - m"] by simp

lemma advance_count:
  "length (pages (fst (advance f s lh b ys (c, y)))) = length (pages c) + page_breaks lh b ys y 1"
  "snd (advance f s lh b ys (c, y)) = cursor_after lh b ys y 1"
  by (simp_all add: advance_def Let_def setFont_def showPage_def)

lemma draw_line_count:
  "length (pages (fst (draw_line f s l lh b ys w (c, y)))) = length (pages c) + page_breaks lh b ys y 1"
  "snd (draw_line f s l lh b ys w (c, y)) = cursor_after lh b ys y 1"
  by (simp_all add: draw_line_def advance_def Let_def setFont_def showPage_def drawString_def)

lemma fold_draw_line_count:
  "length (pages (fst (fold (draw_line f s l lh b ys) ws (c, y)))) =
     length (pages c) + page_breaks lh b ys y (length ws) \<and>
   snd (fold (draw_line f s l lh b ys) ws (c, y)) = cursor_after lh b ys y (length ws)"
proof (induction ws arbitrary: c y)
  case Nil
  then show ?case by simp
next
  case (Cons w ws)
  obtain c' y' where st: "draw_line f s l lh b ys w (c, y) = (c', y')" by (cases "draw_line f s l lh b ys w (c, y)")
  from draw_line_count[of f s l lh b ys w c y] st
  have 1: "length (pages c') = length (pages c) + page_breaks lh b ys y 1"
    and 2: "y' = cursor_after lh b ys y 1" by simp_all
  have "length (Cons w ws) = 1 + length ws" by simp
  then show ?case
    using Cons.IH[of c' y'] st 1 2
    by (simp only: fold_simps page_breaks_add cursor_after_add) simp
qed

lemma layout_line_count:
  "length (pages (fst (layout_line sp f s l uw lh b ys raw (c, y)))) =
     length (pages c) + page_breaks lh b ys y (line_steps sp f s uw raw) \<and>
   snd (layout_line sp f s l uw lh b ys raw (c, y)) = cursor_after lh b ys y (line_steps sp f s uw raw)"
  using advance_count[of f s lh b ys c y] fold_draw_line_count[of f s l lh b ys _ c y]
  by (simp add: layout_line_def line_steps_def Let_def)

lemma fold_layout_line_count:
  "length (pages (fst (fold (layout_line sp f s l uw lh b ys) ls (c, y)))) =
     length (pages c) + page_breaks lh b ys y (sum_list (map (line_steps sp f s uw) ls)) \<and>
   snd (fold (layout_line sp f s l uw lh b ys) ls (c, y)) =
     cursor_after lh b ys y (sum_list (map (line_steps sp f s uw) ls))"
proof (induction ls arbitrary: c y)
  case Nil
  then show ?case by simp
next
  case (Cons r ls)
  obtain c' y' where st: "layout_line sp f s l uw lh b ys r (c, y) = (c', y')"
    by (cases "layout_line sp f s l uw lh b ys r (c, y)")
  from layout_line_count[of sp f s l uw lh b ys r c y] st
  have 1: "length (pages c') = length (pages c) + page_breaks lh b ys y (line_steps sp f s uw r)"
    and 2: "y' = cursor_after lh b ys y (line_steps sp f s uw r)" by simp_all
  show ?case
    using Cons.IH[of c' y'] st 1 2
    by (simp add: page_breaks_add cursor_after_add)
qed

lemma write_wrapped_page_count:
  "length (pages (write_wrapped_page sp text canv f s (l, r, t, b))) =
     length (pages canv) + page_breaks (s * 1.27) b (snd A4 - t) (snd A4 - t)
       (line_advances sp text f s (l, r, t, b)) + 1"
proof -
  obtain pw ph where a4: "A4 = (pw, ph)" by (cases A4)
  have la: "line_advances sp text f s (l, r, t, b) =
      (if text = [] \<or> strip text = [] then 0
       else sum_list (map (line_steps sp f s (pw - l - r)) (splitlines text)))"
    unfolding line_advances_def line_steps_def a4 fst_conv by simp
  show ?thesis
    using fold_layout_line_count[of sp f s l "pw - l - r" "s * 1.27" b "ph - t" "splitlines text" "setFont f s canv" "ph - t"]
    unfolding la
    by (simp add: write_wrapped_page_def a4 Let_def showPage_def setFont_def)
qed

lemma pages_emitted_eq:
  "pages_emitted sp txt canv f s (l, r, t, b) =
     page_breaks (s * 1.27) b (snd A4 - t) (snd A4 - t) (line_advances sp txt f s (l, r, t, b)) + 1"
  by (simp add: pages_emitted_def write_wrapped_page_count)

text \<open>
  Claim C6. For every input text, the empty and the blank ones included, one call of the
  layout step seals at least one page, and it leaves no page open: the page that is
  current after the last line is sealed, drawn on or not.
\<close>

theorem layout_emits_a_page:
  "length (pages canv) + 1 \<le> length (pages (write_wrapped_page sp txt canv f s margins)) \<and>
   current (write_wrapped_page sp txt canv f s margins) = []"
proof -
  obtain l r t b where m: "margins = (l, r, t, b)" by (cases margins)
  obtain pw ph where a4: "A4 = (pw, ph)" by (cases A4)
  have "current (write_wrapped_page sp txt canv f s margins) = []"
    by (simp add: write_wrapped_page_def m a4 Let_def showPage_def)
  then show ?thesis using write_wrapped_page_count[of sp "txt" canv f s l r t b] m by simp
qed

theorem layout_emits_a_page_witness:
  "length (pages new_canvas) + 1
     \<le> length (pages (write_wrapped_page no_wrap [] new_canvas ''Helvetica'' 11 default_margins)) \<and>
   current (write_wrapped_page no_wrap [] new_canvas ''Helvetica'' 11 default_margins) = [] \<and>
   pages (write_wrapped_page no_wrap [] new_canvas ''Helvetica'' 11 default_margins) = [[]]"
  using layout_emits_a_page[of new_canvas no_wrap "[]" "''Helvetica''" 11 default_margins]
  by (simp add: write_wrapped_page_def default_margins_def A4_def new_canvas_def showPage_def
      setFont_def)

text \<open>
  Claim C5, as amended. For a fixed style, the number of pages that the layout step
  emits is non-decreasing in the number of line advances that the text causes (one for
  each blank line and one for each display line after wrapping), not in the length of
  the text: a text that causes no more advances than another emits no more pages.
\<close>

theorem pages_monotone_in_line_advances:
  assumes "line_advances sp t1 f s margins \<le> line_advances sp t2 f s margins"
  shows "pages_emitted sp t1 canv1 f s margins \<le> pages_emitted sp t2 canv2 f s margins"
proof -
  obtain l r t b where m: "margins = (l, r, t, b)" by (cases margins)
  from assms show ?thesis unfolding m pages_emitted_eq
    by (simp add: page_breaks_mono)
qed

lemma char_facts:
  "is_linebreak NL" "is_linebreak 13" "\<not> is_linebreak 120" "\<not> is_linebreak SP"
  "isspace SP" "isspace NL" "\<not> isspace 120"
  by (simp_all add: is_linebreak_def isspace_def)

lemma splitlines_aux_breaks: "splitlines_aux cur (replicate (Suc n) NL) = cur # replicate n []"
proof (induction n arbitrary: cur)
  case 0
  then show ?case by (simp add: char_facts)
next
  case (Suc n)
  have "splitlines_aux cur (NL # NL # replicate n NL) = cur # splitlines_aux [] (NL # replicate n NL)"
    by (simp add: char_facts)
  with Suc[of "[]"] show ?case by simp
qed

lemma splitlines_x_breaks: "splitlines (120 # replicate (Suc n) NL) = [120] # replicate n []"
proof -
  have "splitlines_aux [] (120 # NL # replicate n NL) = splitlines_aux [120] (NL # replicate n NL)"
    by (simp add: char_facts)
  then show ?thesis using splitlines_aux_breaks[of "[120]" n] by (simp add: splitlines_def)
qed

lemma strip_x: "strip (120 # s) \<noteq> []"
proof -
  have "dropWhile isspace (rev s @ [120]) \<noteq> []"
    by (simp add: dropWhile_eq_Nil_conv char_facts)
  then show ?thesis by (simp add: strip_def lstrip_def rstrip_def char_facts)
qed

lemma rstrip_x_spaces: "rstrip (120 # replicate n SP) = [120]"
proof -
  have "dropWhile isspace (replicate n SP @ [120]) = dropWhile isspace [120]"
    by (rule dropWhile_append2) (simp add: char_facts)
  then show ?thesis by (simp add: rstrip_def char_facts)
qed

lemma splitlines_aux_no_break:
  "\<forall>c\<in>set s. \<not> is_linebreak c \<Longrightarrow> s \<noteq> [] \<Longrightarrow> splitlines_aux cur s = [cur @ s]"
proof (induction cur s rule: splitlines_aux.induct)
  case (1 cur)
  then show ?case by simp
next
  case (2 cur c)
  then show ?case by simp
next
  case (3 cur c d cs)
  then have "c \<noteq> 13" "\<not> is_linebreak c" using char_facts(2) by auto
  with 3 show ?case by simp
qed

lemma no_break:
  "0 \<le> lh \<Longrightarrow> b \<le> y - real n * lh \<Longrightarrow>
     page_breaks lh b ys y n = 0 \<and> cursor_after lh b ys y n = y - real n * lh"
proof (induction n arbitrary: y)
  case 0
  then show ?case by simp
next
  case (Suc n)
  from Suc.prems have "b \<le> (y - lh) - real n * lh" by (simp add: algebra_simps)
  moreover from this Suc.prems have "\<not> y - lh < b"
    by (smt (verit) mult_nonneg_nonneg of_nat_0_le_iff)
  ultimately show ?case using Suc.IH[of "y - lh"] Suc.prems by (simp add: algebra_simps)
qed

lemma strip_Nil: "strip [] = []" "rstrip [] = []"
  by (simp_all add: strip_def lstrip_def rstrip_def)

lemma advances_t1: "line_advances no_wrap (120 # replicate 54 NL) f s default_margins = 54"
proof -
  have r: "rstrip [120] = [120]" using rstrip_x_spaces[of 0] by simp
  have "line_advances no_wrap (120 # replicate (Suc 53) NL) f s default_margins = 54"
    unfolding line_advances_def default_margins_def splitlines_x_breaks
    by (simp add: strip_x no_wrap_def strip_Nil r sum_list_replicate)
  then show ?thesis by simp
qed

lemma advances_t2: "line_advances no_wrap (120 # replicate 60 SP) f s default_margins = 1"
proof -
  have "splitlines (120 # replicate 60 SP) = [120 # replicate 60 SP]"
    using splitlines_aux_no_break[of "120 # replicate 60 SP" "[]"]
    by (simp add: splitlines_def char_facts)
  then show ?thesis
    unfolding line_advances_def default_margins_def
    by (simp add: strip_x no_wrap_def rstrip_x_spaces)
qed

lemma breaks_54: "page_breaks (11 * 1.27) 50 (snd A4 - 50) (snd A4 - 50) 54 = 1"
proof -
  have 1: "page_breaks (11 * 1.27) 50 (snd A4 - 50) (snd A4 - 50) 53 = 0 \<and>
        cursor_after (11 * 1.27) 50 (snd A4 - 50) (snd A4 - 50) 53 = snd A4 - 50 - real 53 * (11 * 1.27)"
    by (rule no_break) (simp_all add: A4_def mm_def)
  have "page_breaks (11 * 1.27) 50 (snd A4 - 50) (snd A4 - 50) (53 + 1) = 1"
    unfolding page_breaks_add using 1 by (simp add: A4_def mm_def)
  then show ?thesis by simp
qed

lemma breaks_1: "page_breaks (11 * 1.27) 50 (snd A4 - 50) (snd A4 - 50) 1 = 0"
  by (simp add: A4_def mm_def)

theorem pages_monotone_in_line_advances_witness:
  "line_advances no_wrap (120 # replicate 60 SP) ''Helvetica'' 11 default_margins
     \<le> line_advances no_wrap (120 # replicate 54 NL) ''Helvetica'' 11 default_margins \<and>
   pages_emitted no_wrap (120 # replicate 60 SP) new_canvas ''Helvetica'' 11 default_margins
     \<le> pages_emitted no_wrap (120 # replicate 54 NL) new_canvas ''Helvetica'' 11 default_margins"
proof -
  have h: "line_advances no_wrap (120 # replicate 60 SP) ''Helvetica'' 11 default_margins
     \<le> line_advances no_wrap (120 # replicate 54 NL) ''Helvetica'' 11 default_margins"
    by (simp add: advances_t1 advances_t2)
  from pages_monotone_in_line_advances[OF h, of new_canvas new_canvas] h show ?thesis by simp
qed

text \<open>
  The letter \<open>x\<close> followed by 54 line breaks (55 characters) takes two pages; the
  letter \<open>x\<close> followed by 60 spaces (61 characters) takes one.
\<close>

theorem pages_not_monotone_in_length:
  "length (120 # replicate 54 NL) \<le> length (120 # replicate 60 SP) \<and>
   pages_emitted no_wrap (120 # replicate 54 NL) new_canvas ''Helvetica'' 11 default_margins = 2 \<and>
   pages_emitted no_wrap (120 # replicate 60 SP) new_canvas ''Helvetica'' 11 default_margins = 1"
proof -
  have "pages_emitted no_wrap (120 # replicate 54 NL) new_canvas ''Helvetica'' 11 (50, 50, 50, 50) = 2"
    unfolding pages_emitted_eq advances_t1[unfolded default_margins_def] breaks_54 by simp
  moreover have "pages_emitted no_wrap (120 # replicate 60 SP) new_canvas ''Helvetica'' 11 (50, 50, 50, 50) = 1"
    unfolding pages_emitted_eq advances_t2[unfolded default_margins_def] breaks_1 by simp
  ultimately show ?thesis by (simp add: default_margins_def)
qed

section \<open>The layout step: where lines are drawn\<close>

lemma drawn_ops:
  "drawn (setFont f s c) = drawn c"
  "drawn (showPage c) = drawn c"
  "drawn (drawString x y w c) = drawn c @ [(x, y, w)]"
  by (simp_all add: drawn_def setFont_def showPage_def drawString_def)

lemma advance_inv:
  assumes "0 \<le> lh" "b \<le> ys" "layout_inv l b ys c0 (c, y)"
  shows "layout_inv l b ys c0 (advance f s lh b ys (c, y))"
  using assms by (auto simp: layout_inv_def advance_def Let_def drawn_ops)

lemma draw_line_inv:
  assumes "0 \<le> lh" "b \<le> ys" "layout_inv l b ys c0 (c, y)"
  shows "layout_inv l b ys c0 (draw_line f s l lh b ys w (c, y))"
proof -
  from assms(3) have "layout_inv l b ys c0 (drawString l y w c, y)"
    by (auto simp: layout_inv_def drawn_ops)
  with assms(1,2) show ?thesis unfolding draw_line_def prod.case by (rule advance_inv)
qed

lemma fold_inv:
  assumes "\<And>x c y. I (c, y) \<Longrightarrow> I (step x (c, y))" "I st"
  shows "I (fold step xs st)"
  using assms(2)
proof (induction xs arbitrary: st)
  case Nil
  then show ?case by simp
next
  case (Cons x xs)
  obtain c y where "st = (c, y)" by (cases st)
  with Cons.prems assms(1)[of c y x] have "I (step x st)" by simp
  then show ?case using Cons.IH by simp
qed

lemma layout_line_inv:
  assumes "0 \<le> lh" "b \<le> ys" "layout_inv l b ys c0 (c, y)"
  shows "layout_inv l b ys c0 (layout_line sp f s l uw lh b ys raw (c, y))"
proof (cases "strip (rstrip raw) = []")
  case True
  with assms show ?thesis by (simp add: layout_line_def advance_inv)
next
  case False
  have "layout_inv l b ys c0 (fold (draw_line f s l lh b ys) (sp (rstrip raw) f s uw) (c, y))"
  proof (rule fold_inv[where I = "layout_inv l b ys c0"])
    show "layout_inv l b ys c0 (c, y)" by (rule assms(3))
  qed (rule draw_line_inv[OF assms(1,2)])
  with False show ?thesis by (simp add: layout_line_def)
qed

text \<open>
  Claim C10, as amended. In every call of the layout step with a style whose bottom
  margin does not lie above the start position (\<open>bottom \<le> page_h - top\<close>) and whose
  font size is not negative, as with the A4 page, the margins of 50 and the size 11
  that the pipeline uses, every display line is drawn at \<open>x\<close> equal to the left margin
  and at a \<open>y\<close> between the bottom margin and the page height minus the top margin,
  both included. The margins and the font size are parameters that the layout step does
  not check; outside these two conditions a line can be drawn out of the bounds.
\<close>

theorem lines_drawn_within_margins:
  assumes "bottom \<le> snd A4 - topm" and "0 \<le> font_size"
  shows "\<exists>new. drawn (write_wrapped_page simpleSplit txt canv fname font_size
                        (left, right, topm, bottom)) = drawn canv @ new \<and>
               (\<forall>(x, y, s)\<in>set new. x = left \<and> bottom \<le> y \<and> y \<le> snd A4 - topm)"
proof -
  obtain pw ph where a4: "A4 = (pw, ph)" by (cases A4)
  let ?ys = "ph - topm"
  let ?lh = "font_size * 1.27"
  let ?c = "setFont fname font_size canv"
  from assms have lh: "0 \<le> ?lh" and b: "bottom \<le> ?ys" by (simp_all add: a4)
  from b have start: "layout_inv left bottom ?ys canv (?c, ?ys)"
    by (simp add: layout_inv_def drawn_ops)
  have loop: "layout_inv left bottom ?ys canv
      (fold (layout_line simpleSplit fname font_size left (pw - left - right) ?lh bottom ?ys)
         (splitlines txt) (?c, ?ys))"
  proof (rule fold_inv[where I = "layout_inv left bottom ?ys canv"])
    show "layout_inv left bottom ?ys canv (?c, ?ys)" by (rule start)
  qed (rule layout_line_inv[OF lh b])
  show ?thesis
  proof (cases "txt = [] \<or> strip txt = []")
    case True
    then have "drawn (write_wrapped_page simpleSplit txt canv fname font_size
                        (left, right, topm, bottom)) = drawn canv @ []"
      by (simp add: write_wrapped_page_def a4 Let_def drawn_ops)
    then show ?thesis by (intro exI[of _ "[]"]) simp
  next
    case False
    obtain c' y' where st: "fold (layout_line simpleSplit fname font_size left (pw - left - right) ?lh bottom ?ys)
         (splitlines txt) (?c, ?ys) = (c', y')" by (cases "fold (layout_line simpleSplit fname font_size left (pw - left - right) ?lh bottom ?ys)
         (splitlines txt) (?c, ?ys)")
    from loop st obtain new where "drawn c' = drawn canv @ new"
      "\<forall>(x, y, s)\<in>set new. x = left \<and> bottom \<le> y \<and> y \<le> ?ys"
      by (auto simp: layout_inv_def)
    moreover have "drawn (write_wrapped_page simpleSplit txt canv fname font_size
                        (left, right, topm, bottom)) = drawn c'"
      using False st by (simp add: write_wrapped_page_def a4 Let_def drawn_ops)
    ultimately show ?thesis by (auto simp: a4)
  qed
qed

text \<open>
  The style of the pipeline (A4, margins of 50, size 11) meets both conditions, so the
  bounds hold there for every text, canvas, font and splitter.
\<close>

theorem lines_drawn_within_margins_witness:
  "(50::real) \<le> snd A4 - 50 \<and> (0::real) \<le> 11 \<and>
   (\<exists>new. drawn (write_wrapped_page no_wrap [120, NL, NL, 121] new_canvas ''Helvetica'' 11
                    default_margins) = drawn new_canvas @ new \<and>
          (\<forall>(x, y, s)\<in>set new. x = 50 \<and> 50 \<le> y \<and> y \<le> snd A4 - 50)) \<and>
   (\<forall>simpleSplit t canv fnt.
      \<exists>new. drawn (write_wrapped_page simpleSplit t canv fnt 11 default_margins)
               = drawn canv @ new \<and>
            (\<forall>(x, y, s)\<in>set new. x = 50 \<and> 50 \<le> y \<and> y \<le> snd A4 - 50))"
proof -
  have h1: "(50::real) \<le> snd A4 - 50" by (simp add: A4_def mm_def)
  have h2: "(0::real) \<le> 11" by simp
  have all: "\<exists>new. drawn (write_wrapped_page simpleSplit t canv fnt 11 default_margins)
               = drawn canv @ new \<and>
            (\<forall>(x, y, s)\<in>set new. x = 50 \<and> 50 \<le> y \<and> y \<le> snd A4 - 50)"
    for simpleSplit t canv fnt
    unfolding default_margins_def by (rule lines_drawn_within_margins[OF h1 h2])
  from h1 h2 all[of no_wrap "[120, NL, NL, 121]" new_canvas "''Helvetica''"] all
  show ?thesis by blast
qed

lemma splitlines_x_y: "splitlines [120, NL, 121] = [[120], [121]]"
  by (simp add: splitlines_def char_facts is_linebreak_def)

text \<open>
  With a top margin of 800 the only line is drawn below the bottom margin; with a font
  size of \<open>-1\<close> the second line is drawn above the start position.
\<close>

theorem lines_drawn_outside_margins:
  "drawn (write_wrapped_page no_wrap [120] new_canvas ''Helvetica'' 11 (50, 50, 800, 50))
     = [(50, snd A4 - 800, [120])] \<and>
   snd A4 - 800 < (50::real) \<and>
   drawn (write_wrapped_page no_wrap [120, NL, 121] new_canvas ''Helvetica'' (- 1)
            (50, 50, 50, 50))
     = [(50, snd A4 - 50, [120]), (50, snd A4 - 50 + 1.27, [121])] \<and>
   snd A4 - 50 < snd A4 - 50 + (1.27::real)"
proof -
  have r: "rstrip [120] = [120]" "rstrip [121] = [121]"
    by (simp_all add: rstrip_def isspace_def)
  have s: "splitlines [120] = [[120]]" by (simp add: splitlines_def char_facts)
  have st: "strip [120] \<noteq> []" "strip [121] \<noteq> []" "strip [120, NL, 121] \<noteq> []"
    by (simp_all add: strip_def lstrip_def rstrip_def isspace_def)
  have 1: "drawn (write_wrapped_page no_wrap [120] new_canvas ''Helvetica'' 11 (50, 50, 800, 50))
     = [(50, snd A4 - 800, [120])]"
    by (simp add: write_wrapped_page_def A4_def mm_def st s r layout_line_def draw_line_def
        advance_def no_wrap_def Let_def drawString_def showPage_def setFont_def drawn_def
        new_canvas_def)
  have 2: "drawn (write_wrapped_page no_wrap [120, NL, 121] new_canvas ''Helvetica'' (- 1)
            (50, 50, 50, 50))
     = [(50, snd A4 - 50, [120]), (50, snd A4 - 50 + 1.27, [121])]"
    by (simp add: write_wrapped_page_def A4_def mm_def st splitlines_x_y r layout_line_def
        draw_line_def advance_def no_wrap_def Let_def drawString_def showPage_def setFont_def
        drawn_def new_canvas_def)
  have 3: "snd A4 - 800 < (50::real)" by (simp add: A4_def mm_def)
  from 1 2 3 show ?thesis by simp
qed

section \<open>The pipeline: complete and aborted runs\<close>

lemma saved_ops:
  "saved (setFont f s c) = saved c"
  "saved (showPage c) = saved c"
  "saved (drawString x y w c) = saved c"
  by (simp_all add: setFont_def showPage_def drawString_def)

lemma advance_saved: "saved (fst (advance f s lh b ys (c, y))) = saved c"
  by (simp add: advance_def Let_def saved_ops)

lemma draw_line_saved: "saved (fst (draw_line f s l lh b ys w (c, y))) = saved c"
  by (simp add: draw_line_def advance_saved saved_ops)

lemma fold_draw_line_saved: "saved (fst (fold (draw_line f s l lh b ys) ws (c, y))) = saved c"
  using fold_inv[where I = "\<lambda>st. saved (fst st) = saved c" and step = "draw_line f s l lh b ys"
      and st = "(c, y)" and xs = ws]
  by (simp add: draw_line_saved)

lemma layout_line_saved: "saved (fst (layout_line sp f s l uw lh b ys raw (c, y))) = saved c"
  by (simp add: layout_line_def Let_def advance_saved fold_draw_line_saved)

lemma fold_layout_line_saved:
  "saved (fst (fold (layout_line sp f s l uw lh b ys) ls (c, y))) = saved c"
  using fold_inv[where I = "\<lambda>st. saved (fst st) = saved c"
      and step = "layout_line sp f s l uw lh b ys" and st = "(c, y)" and xs = ls]
  by (simp add: layout_line_saved)

lemma write_wrapped_page_saved: "saved (write_wrapped_page sp txt canv f s margins) = saved canv"
proof -
  obtain l r t b where m: "margins = (l, r, t, b)" by (cases margins)
  obtain pw ph where a4: "A4 = (pw, ph)" by (cases A4)
  show ?thesis
    using fold_layout_line_saved[of sp f s l "pw - l - r" "s * 1.27" b "ph - t" "splitlines txt"
        "setFont f s canv" "ph - t"]
    by (simp add: write_wrapped_page_def m a4 Let_def saved_ops)
qed

lemma process_page_saved: "saved (snd (process_page U g eng sp self pg canv)) = saved canv"
  by (simp add: process_page_def Let_def write_wrapped_page_saved split: prod.split sum.split)

lemma process_page_not_recognized:
  "\<not> recognized eng self pg \<Longrightarrow>
     fst (process_page U g eng sp self pg canv) \<noteq> None \<and>
     snd (process_page U g eng sp self pg canv) = canv"
  by (auto simp: process_page_def recognized_def Let_def split: prod.splits sum.splits)

lemma process_page_outcome:
  "fst (process_page U g eng sp self pg canv) = None \<or>
   snd (process_page U g eng sp self pg canv) = canv"
  by (auto simp: process_page_def Let_def split: prod.splits sum.splits)

lemma process_pages_saved: "saved (snd (process_pages U g eng sp self pgs canv)) = saved canv"
proof (induction pgs arbitrary: canv)
  case Nil
  then show ?case by simp
next
  case (Cons pg pgs)
  obtain r c' where pp: "process_page U g eng sp self pg canv = (r, c')"
    by (cases "process_page U g eng sp self pg canv")
  with process_page_saved[of U g eng sp self pg canv] have "saved c' = saved canv" by simp
  with pp Cons.IH[of c'] show ?case by (cases r) simp_all
qed

lemma process_pages_append_fail:
  assumes "\<not> recognized eng self pg"
  shows "fst (process_pages U g eng sp self (before @ pg # rest) canv) \<noteq> None \<and>
         snd (process_pages U g eng sp self (before @ pg # rest) canv) =
           snd (process_pages U g eng sp self before canv)"
proof (induction before arbitrary: canv)
  case Nil
  obtain r c' where pp: "process_page U g eng sp self pg canv = (r, c')"
    by (cases "process_page U g eng sp self pg canv")
  with process_page_not_recognized[OF assms, of U g sp canv] show ?case by auto
next
  case (Cons q before)
  obtain r c' where pp: "process_page U g eng sp self q canv = (r, c')"
    by (cases "process_page U g eng sp self q canv")
  show ?case
  proof (cases r)
    case None
    with pp Cons.IH[of c'] show ?thesis by simp
  next
    case (Some e)
    with pp show ?thesis by simp
  qed
qed

lemma visited_pages:
  "map (\<lambda>i. doc ! i) [k ..< length doc] = drop k doc"
  by (rule nth_equalityI) auto

lemma pages_extend_refl: "pages_extend c c"
  by (simp add: pages_extend_def)

lemma pages_extend_ops:
  "pages_extend c0 c \<Longrightarrow> pages_extend c0 (setFont f s c)"
  "pages_extend c0 c \<Longrightarrow> pages_extend c0 (showPage c)"
  "pages_extend c0 c \<Longrightarrow> pages_extend c0 (drawString x y w c)"
  by (simp_all add: pages_extend_def setFont_def showPage_def drawString_def)

lemma fold_inv_fst:
  assumes "\<And>x st. I (fst st) \<Longrightarrow> I (fst (step x st))" "I (fst st)"
  shows "I (fst (fold step xs st))"
  using assms(2)
proof (induction xs arbitrary: st)
  case Nil
  then show ?case by simp
next
  case (Cons x xs)
  from Cons.prems have "I (fst (step x st))" by (rule assms(1))
  then show ?case using Cons.IH by simp
qed

lemma advance_extend:
  "pages_extend c0 (fst st) \<Longrightarrow> pages_extend c0 (fst (advance f s lh b ys st))"
  by (cases st) (simp add: advance_def Let_def pages_extend_ops)

lemma draw_line_extend:
  "pages_extend c0 (fst st) \<Longrightarrow> pages_extend c0 (fst (draw_line f s l lh b ys w st))"
  by (cases st) (simp add: draw_line_def advance_extend pages_extend_ops)

lemma layout_line_extend:
  assumes "pages_extend c0 (fst st)"
  shows "pages_extend c0 (fst (layout_line sp f s l uw lh b ys raw st))"
proof -
  obtain c y where st: "st = (c, y)" by (cases st)
  have "pages_extend c0 (fst (fold (draw_line f s l lh b ys) ws st))" for ws
    using assms by (rule fold_inv_fst[where I = "pages_extend c0", rotated]) (rule draw_line_extend)
  with assms show ?thesis by (simp add: layout_line_def Let_def advance_extend)
qed

lemma write_wrapped_page_extend: "pages_extend canv (write_wrapped_page sp txt canv f s margins)"
proof -
  obtain l r t b where m: "margins = (l, r, t, b)" by (cases margins)
  obtain pw ph where a4: "A4 = (pw, ph)" by (cases A4)
  have "pages_extend canv (fst (fold (layout_line sp f s l (pw - l - r) (s * 1.27) b (ph - t))
          (splitlines txt) (setFont f s canv, ph - t)))"
  proof (rule fold_inv_fst[where I = "pages_extend canv"])
    show "pages_extend canv (fst (setFont f s canv, ph - t))"
      by (simp add: pages_extend_ops pages_extend_refl)
  qed (rule layout_line_extend)
  then show ?thesis
    by (simp add: write_wrapped_page_def m a4 Let_def pages_extend_ops pages_extend_refl)
qed

lemma pages_extend_trans: "pages_extend a b \<Longrightarrow> pages_extend b c \<Longrightarrow> pages_extend a c"
proof -
  assume ab: "pages_extend a b" and bc: "pages_extend b c"
  have "take (length (pages a)) (pages c) = take (length (pages a)) (take (length (pages b)) (pages c))"
    using ab by (simp add: pages_extend_def min_def)
  also have "\<dots> = pages a" using ab bc by (simp add: pages_extend_def)
  finally show ?thesis using ab bc by (simp add: pages_extend_def)
qed

text \<open>
  Claim C2, as amended. \<open>process\<close> has no handler around the recognition call. If the
  engine raises on a half of a visited page, after it returned on both halves of the
  pages before, the exception leaves \<open>process\<close>: no text is substituted, nothing is
  laid out for that page or for any later page (the canvas is as the earlier pages left
  it), and the document is not saved.
\<close>

theorem recognizer_failure_aborts_run:
  assumes "drop (if omit_first self then 1 else 0) doc = before @ pg # rest"
    and "\<forall>q\<in>set before. recognized eng self q"
    and "\<not> recognized eng self pg"
  shows "fst (process U g eng sp self doc) \<noteq> None \<and>
         \<not> saved (snd (process U g eng sp self doc)) \<and>
         snd (process U g eng sp self doc) = snd (process_pages U g eng sp self before new_canvas)"
proof -
  let ?k = "if omit_first self then 1 else 0"
  obtain r c where pp: "process_pages U g eng sp self (before @ pg # rest) new_canvas = (r, c)"
    by (cases "process_pages U g eng sp self (before @ pg # rest) new_canvas")
  from process_pages_append_fail[OF assms(3), of U g sp before rest new_canvas] pp
  have r: "r \<noteq> None" and c: "c = snd (process_pages U g eng sp self before new_canvas)"
    by simp_all
  from process_pages_saved[of U g eng sp self "before @ pg # rest" new_canvas] pp
  have s: "\<not> saved c" by (simp add: new_canvas_def)
  from r obtain e where "r = Some e" by auto
  with pp c s assms(1) show ?thesis
    by (simp add: process_def Let_def visited_pages)
qed

lemmas pipeline_eval = process_def process_page_def half_pixmaps_def get_pixmap_def Rect_def
  Matrix_def ocr_half_pixmap_def failing_engine_def example_page_def example_processor_def
  recognized_def visited_pages Let_def

theorem recognizer_failure_aborts_run_witness:
  "drop (if omit_first example_processor then 1 else 0)
     [example_page 0, example_page 1, example_page 2] = [example_page 1] @ example_page 2 # [] \<and>
   recognized (failing_engine 2) example_processor (example_page 1) \<and>
   \<not> recognized (failing_engine 2) example_processor (example_page 2) \<and>
   fst (process latin1_db (initial_tools :: unit tools) (failing_engine 2) no_wrap example_processor
          [example_page 0, example_page 1, example_page 2]) \<noteq> None \<and>
   \<not> saved (snd (process latin1_db (initial_tools :: unit tools) (failing_engine 2) no_wrap
                  example_processor [example_page 0, example_page 1, example_page 2])) \<and>
   snd (process latin1_db (initial_tools :: unit tools) (failing_engine 2) no_wrap
          example_processor [example_page 0, example_page 1, example_page 2]) =
     snd (process_pages latin1_db (initial_tools :: unit tools) (failing_engine 2) no_wrap
            example_processor [example_page 1] new_canvas)"
proof -
  have h1: "drop (if omit_first example_processor then 1 else 0)
     [example_page 0, example_page 1, example_page 2] = [example_page 1] @ example_page 2 # []"
    by (simp add: example_processor_def)
  have h2: "\<forall>q\<in>set [example_page 1]. recognized (failing_engine 2) example_processor q"
    by (simp add: pipeline_eval)
  have h3: "\<not> recognized (failing_engine 2) example_processor (example_page 2)"
    by (simp add: pipeline_eval)
  from h2 have h2': "recognized (failing_engine 2) example_processor (example_page 1)" by simp
  from recognizer_failure_aborts_run[OF h1 h2 h3, of latin1_db "initial_tools :: unit tools" no_wrap]
    h1 h2' h3
  show ?thesis by blast
qed

text \<open>
  A document of three pages, the first skipped, where the engine raises on the left half
  of the second page: the run ends with the exception, no page on the canvas and the
  document not saved.
\<close>

theorem recognizer_failure_loses_the_run:
  "process latin1_db (initial_tools :: unit tools) (failing_engine 1) no_wrap example_processor
     [example_page 0, example_page 1, example_page 2]
     = (Some (Exception ''recognition failed''), new_canvas) \<and>
   pages new_canvas = [] \<and> \<not> saved new_canvas"
  by (simp add: pipeline_eval new_canvas_def)

text \<open>
  Claim C7. For every page rectangle of width \<open>w\<close> and height \<open>h\<close>, the left half is
  rendered with the clip \<open>[0, 0, w/2, h]\<close> and the right half with the clip
  \<open>[w/2, 0, w, h]\<close>, both with the matrix that scales by \<open>dpi/72\<close> on both axes and
  nothing else, and both without alpha channel.
\<close>

theorem half_pixmaps_clip_and_scale:
  "(let w = width (rect pg); h = height (rect pg); z = real_of_int (dpi self) / 72;
        left_pix = fst (half_pixmaps self pg); right_pix = snd (half_pixmaps self pg)
    in pix_clip left_pix = \<lparr> x0 = 0, y0 = 0, x1 = w / 2, y1 = h \<rparr> \<and>
       pix_clip right_pix = \<lparr> x0 = w / 2, y0 = 0, x1 = w, y1 = h \<rparr> \<and>
       pix_matrix left_pix = \<lparr> m_a = z, m_b = 0, m_c = 0, m_d = z, m_e = 0, m_f = 0 \<rparr> \<and>
       pix_matrix right_pix = pix_matrix left_pix \<and>
       \<not> pix_alpha left_pix \<and> \<not> pix_alpha right_pix \<and>
       pix_page left_pix = pg \<and> pix_page right_pix = pg)"
  by (simp add: half_pixmaps_def get_pixmap_def Rect_def Matrix_def Let_def)

theorem half_pixmaps_clip_and_scale_witness:
  "pix_clip (fst (half_pixmaps example_processor (example_page 1)))
     = \<lparr> x0 = 0, y0 = 0, x1 = 300, y1 = 800 \<rparr> \<and>
   pix_clip (snd (half_pixmaps example_processor (example_page 1)))
     = \<lparr> x0 = 300, y0 = 0, x1 = 600, y1 = 800 \<rparr> \<and>
   pix_matrix (fst (half_pixmaps example_processor (example_page 1)))
     = \<lparr> m_a = 25 / 6, m_b = 0, m_c = 0, m_d = 25 / 6, m_e = 0, m_f = 0 \<rparr>"
  using half_pixmaps_clip_and_scale[of "example_page 1" example_processor]
  by (simp add: Let_def example_page_def example_processor_def)

lemma write_wrapped_page_more:
  "length (pages canv) + 1 \<le> length (pages (write_wrapped_page sp txt canv f s margins))"
proof -
  obtain l r t b where m: "margins = (l, r, t, b)" by (cases margins)
  show ?thesis using write_wrapped_page_count[of sp "txt" canv f s l r t b] m by simp
qed

lemma write_wrapped_page_current: "current (write_wrapped_page sp txt canv f s margins) = []"
proof -
  obtain l r t b where m: "margins = (l, r, t, b)" by (cases margins)
  obtain pw ph where a4: "A4 = (pw, ph)" by (cases A4)
  show ?thesis by (simp add: write_wrapped_page_def m a4 Let_def showPage_def)
qed

lemma process_page_total:
  assumes "correct_spanish_text U g (recognize (fst (half_pixmaps self pg)) ''spa'') = Inr l"
    and "correct_spanish_text U g (recognize (snd (half_pixmaps self pg)) ''spa'') = Inr r"
  shows "process_page U g (\<lambda>pixmap lang. Inr (recognize pixmap lang)) sp self pg canv =
     (None,
      write_wrapped_page sp r
        (write_wrapped_page sp l canv (font_name self) 11 default_margins)
        (font_name self) 11 default_margins)"
proof -
  obtain lp rp where hp: "half_pixmaps self pg = (lp, rp)" by (cases "half_pixmaps self pg")
  with assms have "correct_spanish_text U g (recognize lp ''spa'') = Inr l"
    "correct_spanish_text U g (recognize rp ''spa'') = Inr r" by simp_all
  then show ?thesis by (simp add: process_page_def hp ocr_half_pixmap_def)
qed

lemma x_text: "correct_spanish_text latin1_db (initial_tools :: unit tools) [120] = Inr [120]"
  by (simp add: correct_spanish_text_def initial_tools_def grammar_pass_def strip_x
      match_hyphen_break_def match_trailing_blanks_def match_breaks3_def match_spaces2_def)

lemma x_page:
  "write_wrapped_page no_wrap [120] canv ''Helvetica'' 11 default_margins =
     canv\<lparr>pages := pages canv @ [current canv @ [(50, snd A4 - 50, [120])]], current := [],
          font := initial_font canv\<rparr>"
proof -
  have r: "rstrip [120] = [120]" using rstrip_x_spaces[of 0] by simp
  have s: "splitlines [120] = [[120]]" by (simp add: splitlines_def char_facts)
  show ?thesis
    by (simp add: write_wrapped_page_def default_margins_def A4_def mm_def strip_x s r
        layout_line_def draw_line_def advance_def no_wrap_def Let_def drawString_def
        showPage_def setFont_def)
qed

lemma process_three_pages:
  assumes "omit_first self"
    and "correct_spanish_text U g (recognize (fst (half_pixmaps self p1)) ''spa'') = Inr l1"
    and "correct_spanish_text U g (recognize (snd (half_pixmaps self p1)) ''spa'') = Inr r1"
    and "correct_spanish_text U g (recognize (fst (half_pixmaps self p2)) ''spa'') = Inr l2"
    and "correct_spanish_text U g (recognize (snd (half_pixmaps self p2)) ''spa'') = Inr r2"
  shows "(let emit = (\<lambda>t canv. write_wrapped_page sp t canv (font_name self) 11 default_margins);
              c1 = emit r1 (emit l1 new_canvas);
              c2 = emit r2 (emit l2 c1)
          in process U g (\<lambda>pixmap lang. Inr (recognize pixmap lang)) sp self [p0, p1, p2]
               = (None, save c2) \<and>
             saved (save c2) \<and> pages (save c2) = pages c2 \<and>
             take (length (pages c1)) (pages c2) = pages c1 \<and>
             2 \<le> length (pages c1) \<and> length (pages c1) + 2 \<le> length (pages c2))"
proof -
  let ?emit = "\<lambda>t canv. write_wrapped_page sp t canv (font_name self) 11 default_margins"
  let ?l1 = "?emit l1 new_canvas"
  let ?c1 = "?emit r1 ?l1"
  let ?l2 = "?emit l2 ?c1"
  let ?c2 = "?emit r2 ?l2"
  have run: "process U g (\<lambda>pixmap lang. Inr (recognize pixmap lang)) sp self [p0, p1, p2]
               = (None, save ?c2)"
  proof -
    have pp1: "process_page U g (\<lambda>pixmap lang. Inr (recognize pixmap lang)) sp self p1 canv =
        (None, ?emit r1 (?emit l1 canv))" for canv
      using assms(2,3) by (rule process_page_total)
    have pp2: "process_page U g (\<lambda>pixmap lang. Inr (recognize pixmap lang)) sp self p2 canv =
        (None, ?emit r2 (?emit l2 canv))" for canv
      using assms(4,5) by (rule process_page_total)
    from assms(1) show ?thesis by (simp add: process_def visited_pages pp1 pp2)
  qed
  have cur: "current ?c2 = []" by (rule write_wrapped_page_current)
  then have sv: "saved (save ?c2)" "pages (save ?c2) = pages ?c2" by (simp_all add: save_def)
  have "pages_extend ?c1 ?l2" "pages_extend ?l2 ?c2" by (rule write_wrapped_page_extend)+
  then have "pages_extend ?c1 ?c2" by (rule pages_extend_trans)
  then have pre: "take (length (pages ?c1)) (pages ?c2) = pages ?c1" by (simp add: pages_extend_def)
  have n1: "length (pages new_canvas) + 1 \<le> length (pages ?l1)"
    and n2: "length (pages ?l1) + 1 \<le> length (pages ?c1)"
    and n3: "length (pages ?c1) + 1 \<le> length (pages ?l2)"
    and n4: "length (pages ?l2) + 1 \<le> length (pages ?c2)"
    by (rule write_wrapped_page_more)+
  from n1 n2 have g1: "2 \<le> length (pages ?c1)" by simp
  from n3 n4 have g2: "length (pages ?c1) + 2 \<le> length (pages ?c2)" by simp
  from run sv pre g1 g2 show ?thesis unfolding Let_def by blast
qed

text \<open>
  Claim C9. For a document of three pages with \<open>omit_first\<close> set, an engine that
  returns on every half and correctors that return (any grammar tool, any dictionary
  whose lookups return), the pipeline lays out the corrected text of the left and then
  of the right half of the second page, then of the left and of the right half of the
  third page, and nothing of the first; it saves the document. The pages of the second
  page's two emissions are at least two, and those of the third page's two emissions
  follow them and are at least two.
\<close>

theorem three_pages_skip_first:
  assumes "omit_first self"
  shows "\<exists>l1 r1 l2 r2.
          (let g = \<lparr> lt_tool = lt, spell = map_option returning_checker dict, USE_LT = b \<rparr>;
               half_text = (\<lambda>pixmap. correct_spanish_text U g (recognize pixmap ''spa''));
               emit = (\<lambda>t canv. write_wrapped_page sp t canv (font_name self) 11 default_margins);
               c1 = emit r1 (emit l1 new_canvas);
               c2 = emit r2 (emit l2 c1)
           in half_text (fst (half_pixmaps self p1)) = Inr l1 \<and>
              half_text (snd (half_pixmaps self p1)) = Inr r1 \<and>
              half_text (fst (half_pixmaps self p2)) = Inr l2 \<and>
              half_text (snd (half_pixmaps self p2)) = Inr r2 \<and>
              process U g (\<lambda>pixmap lang. Inr (recognize pixmap lang)) sp self [p0, p1, p2]
                = (None, save c2) \<and>
              saved (save c2) \<and> pages (save c2) = pages c2 \<and>
              take (length (pages c1)) (pages c2) = pages c1 \<and>
              2 \<le> length (pages c1) \<and> length (pages c1) + 2 \<le> length (pages c2))"
proof -
  let ?g = "\<lparr> lt_tool = lt, spell = map_option returning_checker dict, USE_LT = b \<rparr>"
  let ?ht = "\<lambda>pixmap. correct_spanish_text U ?g (recognize pixmap ''spa'')"
  obtain l1 where l1: "?ht (fst (half_pixmaps self p1)) = Inr l1"
    using correct_spanish_text_returns by blast
  obtain r1 where r1: "?ht (snd (half_pixmaps self p1)) = Inr r1"
    using correct_spanish_text_returns by blast
  obtain l2 where l2: "?ht (fst (half_pixmaps self p2)) = Inr l2"
    using correct_spanish_text_returns by blast
  obtain r2 where r2: "?ht (snd (half_pixmaps self p2)) = Inr r2"
    using correct_spanish_text_returns by blast
  note run = process_three_pages[where U = U and g = ?g and recognize = recognize
      and self = self and ?p1.0 = p1 and ?p2.0 = p2 and ?l1.0 = l1 and ?r1.0 = r1
      and ?l2.0 = l2 and ?r2.0 = r2 and sp = sp and ?p0.0 = p0, OF assms l1 r1 l2 r2]
  from run l1 r1 l2 r2 show ?thesis unfolding Let_def by blast
qed

text \<open>
  Three pages on which the engine reads \<open>x\<close> in every half, with no corrector: the
  first page is skipped and four output pages follow, one for each half of the second
  and third page.
\<close>

theorem three_pages_skip_first_witness:
  "omit_first example_processor \<and>
   process latin1_db (initial_tools :: unit tools) (\<lambda>pixmap lang. Inr (x_engine pixmap lang))
     no_wrap example_processor [example_page 0, example_page 1, example_page 2] =
     (None,
      new_canvas
        \<lparr>pages := [[(50, snd A4 - 50, [120])], [(50, snd A4 - 50, [120])],
                   [(50, snd A4 - 50, [120])], [(50, snd A4 - 50, [120])]],
         saved := True\<rparr>)"
proof -
  have h: "omit_first example_processor" by (simp add: example_processor_def)
  from three_pages_skip_first[OF h, of "None :: unit language_tool option" None True latin1_db
      x_engine no_wrap "example_page 1" "example_page 2" "example_page 0"]
  show ?thesis
    by (auto simp: Let_def initial_tools_def x_engine_def x_text[unfolded initial_tools_def]
        example_processor_def x_page save_def new_canvas_def)
qed

end
